theory Spec2Isabelle
  imports Main "HOL-Library.Word" "HOL-Library.Signed_Division"
begin

unbundle bit_operations_syntax

section \<open>The C library as the discovery module uses it\<close>

text \<open>
  A C string is modelled by the characters before its terminating NUL, a pointer that may
  be NULL by an option.  Characters are compared through their codes, as the C
  comparisons \<^verbatim>\<open>*p < '0'\<close> do.
\<close>

definition is_digit :: "char \<Rightarrow> bool" where
  "is_digit c = (\<not> ((of_char c :: nat) < 48 \<or> (of_char c :: nat) > 57))"

definition is_alpha_lower :: "char \<Rightarrow> bool" where
  "is_alpha_lower c = ((of_char c :: nat) \<ge> 97 \<and> (of_char c :: nat) \<le> 122)"

definition is_alpha_upper :: "char \<Rightarrow> bool" where
  "is_alpha_upper c = ((of_char c :: nat) \<ge> 65 \<and> (of_char c :: nat) \<le> 90)"

definition isspace :: "char \<Rightarrow> bool" where
  "isspace c = ((of_char c :: nat) = 32 \<or> (9 \<le> (of_char c :: nat) \<and> (of_char c :: nat) \<le> 13))"

definition newline :: char where
  "newline = CHR 0x0A"

text \<open>\<^verbatim>\<open>strstr(h, n)\<close>: the suffix of \<open>h\<close> at the first occurrence of \<open>n\<close>, or NULL.\<close>

fun strstr :: "string \<Rightarrow> string \<Rightarrow> string option" where
  "strstr [] n = (if n = [] then Some [] else None)"
| "strstr (c # cs) n = (if take (length n) (c # cs) = n then Some (c # cs) else strstr cs n)"

text \<open>\<^verbatim>\<open>strrchr(s, ch)\<close> as the pair of what precedes and what follows the last \<open>ch\<close>.\<close>

fun strrchr_split :: "string \<Rightarrow> char \<Rightarrow> (string \<times> string) option" where
  "strrchr_split [] ch = None"
| "strrchr_split (c # cs) ch =
     (case strrchr_split cs ch of
        Some (before, after) \<Rightarrow> Some (c # before, after)
      | None \<Rightarrow> if c = ch then Some ([], cs) else None)"

text \<open>
  \<^verbatim>\<open>fgets(buf, n, fp)\<close> reads at most \<open>n - 1\<close> characters and stops after a newline.
  \<open>fgets_take k s\<close> is the buffer and the rest of the stream; \<open>fgets_all n s\<close> is the
  sequence of buffers that successive calls return until the stream is exhausted.
\<close>

fun fgets_take :: "nat \<Rightarrow> string \<Rightarrow> string \<times> string" where
  "fgets_take 0 s = ([], s)"
| "fgets_take (Suc k) [] = ([], [])"
| "fgets_take (Suc k) (c # cs) =
     (if c = newline then ([c], cs)
      else (case fgets_take k cs of (l, r) \<Rightarrow> (c # l, r)))"

lemma fgets_take_rest_le: "length (snd (fgets_take k s)) \<le> length s"
  by (induction k s rule: fgets_take.induct) (auto split: prod.splits)

lemma fgets_take_rest_less:
  "s \<noteq> [] \<Longrightarrow> 0 < k \<Longrightarrow> length (snd (fgets_take k s)) < length s"
proof (cases k)
  case 0
  assume "0 < k"
  with 0 show ?thesis by simp
next
  case (Suc j)
  assume "s \<noteq> []"
  then obtain c cs where s: "s = c # cs" by (cases s) auto
  have "length (snd (fgets_take j cs)) \<le> length cs" by (rule fgets_take_rest_le)
  then show ?thesis using Suc s by (auto split: prod.splits)
qed

function fgets_all :: "nat \<Rightarrow> string \<Rightarrow> string list" where
  "fgets_all n s =
     (if s = [] \<or> n < 2 then []
      else fst (fgets_take (n - 1) s) # fgets_all n (snd (fgets_take (n - 1) s)))"
  by pat_completeness auto
termination
  by (relation "measure (\<lambda>(n, s). length s)") (auto intro: fgets_take_rest_less)

declare fgets_all.simps [simp del]

text \<open>Decimal output of \<^verbatim>\<open>%d\<close>.\<close>

definition digit_char :: "nat \<Rightarrow> char" where
  "digit_char d = char_of (48 + d)"

function show_nat :: "nat \<Rightarrow> string" where
  "show_nat n = (if n < 10 then [digit_char n] else show_nat (n div 10) @ [digit_char (n mod 10)])"
  by pat_completeness auto
termination
  by (relation "measure id") auto

declare show_nat.simps [simp del]

definition show_int :: "int \<Rightarrow> string" where
  "show_int i = (if i < 0 then CHR ''-'' # show_nat (nat (- i)) else show_nat (nat i))"

text \<open>
  \<^verbatim>\<open>snprintf(buf, size, "%d.%d.%d.%d", a, b, c, d)\<close>: the output is cut to
  \<open>size - 1\<close> characters.
\<close>

definition snprintf_quad :: "nat \<Rightarrow> int \<Rightarrow> int \<Rightarrow> int \<Rightarrow> int \<Rightarrow> string" where
  "snprintf_quad sz a b c d =
     take (sz - 1) (show_int a @ ''.'' @ show_int b @ ''.'' @ show_int c @ ''.'' @ show_int d)"

text \<open>
  The conversions of \<^verbatim>\<open>sscanf\<close> that occur in the module.  The result is the list of
  values assigned, in order; its length is the count \<^verbatim>\<open>sscanf\<close> returns (every caller
  compares that count with a positive number, so EOF and 0 need not be told apart).
  \<^verbatim>\<open>%d\<close> converts as glibc does on LP64: the digits are read as a \<^verbatim>\<open>long\<close>, clamped
  to its range, and the low 32 bits are stored.
\<close>

datatype conv =
    Ws
  | Lit char
  | Str nat
  | SkipStr
  | NotIn nat "char list"
  | Dec

datatype sval = SStr string | SInt int

fun digits_val :: "nat \<Rightarrow> string \<Rightarrow> nat" where
  "digits_val acc [] = acc"
| "digits_val acc (c # cs) = digits_val (acc * 10 + ((of_char c :: nat) - 48)) cs"

definition long_max :: int where
  "long_max = 9223372036854775807"

definition to_int32 :: "int \<Rightarrow> int" where
  "to_int32 v = sint (word_of_int v :: 32 word)"

definition strtol_val :: "bool \<Rightarrow> string \<Rightarrow> int" where
  "strtol_val neg ds =
     (let v = int (digits_val 0 ds)
      in if neg then (if v > long_max + 1 then - long_max - 1 else - v)
         else (if v > long_max then long_max else v))"

fun scan_dec :: "string \<Rightarrow> (int \<times> string) option" where
  "scan_dec s =
     (let s1 = dropWhile isspace s;
          neg = (s1 \<noteq> [] \<and> hd s1 = CHR ''-'');
          s2 = (if s1 \<noteq> [] \<and> (hd s1 = CHR ''-'' \<or> hd s1 = CHR ''+'') then tl s1 else s1);
          ds = takeWhile is_digit s2
      in if ds = [] then None
         else Some (to_int32 (strtol_val neg ds), dropWhile is_digit s2))"

fun sscanf :: "conv list \<Rightarrow> string \<Rightarrow> sval list" where
  "sscanf [] s = []"
| "sscanf (Ws # fs) s = sscanf fs (dropWhile isspace s)"
| "sscanf (Lit c # fs) s =
     (case s of [] \<Rightarrow> [] | x # r \<Rightarrow> if x = c then sscanf fs r else [])"
| "sscanf (Str n # fs) s =
     (let s1 = dropWhile isspace s;
          tok = take n (takeWhile (\<lambda>c. \<not> isspace c) s1)
      in if tok = [] then [] else SStr tok # sscanf fs (drop (length tok) s1))"
| "sscanf (SkipStr # fs) s =
     (let s1 = dropWhile isspace s;
          tok = takeWhile (\<lambda>c. \<not> isspace c) s1
      in if tok = [] then [] else sscanf fs (drop (length tok) s1))"
| "sscanf (NotIn n cs # fs) s =
     (let tok = take n (takeWhile (\<lambda>c. c \<notin> set cs) s)
      in if tok = [] then [] else SStr tok # sscanf fs (drop (length tok) s))"
| "sscanf (Dec # fs) s =
     (case scan_dec s of None \<Rightarrow> [] | Some (v, r) \<Rightarrow> SInt v # sscanf fs r)"

section \<open>The environment and the state of a discovery run\<close>

text \<open>
  Everything the module reads from outside is a field of \<open>world\<close>.
  \<open>popen w k cmd\<close> is the whole output of the \<open>k\<close>-th command of the run when that
  command is \<open>cmd\<close> (\<open>None\<close> when \<^verbatim>\<open>popen\<close> returns NULL); the output holds no
  NUL.  \<open>time_ms w t\<close> is what \<^verbatim>\<open>sscanf(t, "time=%f", &time_ms)\<close> followed by
  \<^verbatim>\<open>(int)(time_ms + 0.5)\<close> yields (\<open>None\<close> when the conversion fails); the
  floating-point arithmetic itself is outside the model.  \<open>local_info\<close> is what
  \<^verbatim>\<open>get_local_network_info\<close> writes (local address, network address, netmask) when
  it returns 0.  \<open>uninit w s\<close> is the indeterminate content of an uninitialised
  \<^verbatim>\<open>int[4]\<close> just before \<^verbatim>\<open>parse_ip\<close> scans \<open>s\<close> into it.
\<close>

record world =
  popen :: "nat \<Rightarrow> string \<Rightarrow> string option"
  time_ms :: "string \<Rightarrow> int option"
  local_info :: "(string \<times> string \<times> string) option"
  uninit :: "string \<Rightarrow> int \<times> int \<times> int \<times> int"

record discovered_host =
  ip_address :: string
  response_time_ms :: int
  is_reachable :: int

text \<open>
  Lines of standard output that the properties below speak about; every other
  \<^verbatim>\<open>printf\<close> of the module is left out.
\<close>

datatype event =
    ScanProgress int int
  | ProgressTick
  | QueryingRouter int string

text \<open>
  \<open>hosts\<close> is \<^verbatim>\<open>discovered_hosts[0 .. discovered_count - 1]\<close>, so
  \<^verbatim>\<open>discovered_count\<close> is its length; \<open>cmds\<close> is the sequence of command lines handed
  to \<^verbatim>\<open>popen\<close> so far.
\<close>

record state =
  hosts :: "discovered_host list"
  cmds :: "string list"
  printed :: "event list"

definition MAX_DISCOVERED_HOSTS :: nat where
  "MAX_DISCOVERED_HOSTS = 1024"

definition MAX_HOPS :: nat where
  "MAX_HOPS = 30"

definition MAX_IP_LEN :: nat where
  "MAX_IP_LEN = 16"

definition discovered_count :: "state \<Rightarrow> nat" where
  "discovered_count st = length (hosts st)"

definition run_popen :: "world \<Rightarrow> string \<Rightarrow> state \<Rightarrow> string option \<times> state" where
  "run_popen w cmd st = (popen w (length (cmds st)) cmd, st\<lparr>cmds := cmds st @ [cmd]\<rparr>)"

definition printf :: "event \<Rightarrow> state \<Rightarrow> state" where
  "printf e st = st\<lparr>printed := printed st @ [e]\<rparr>"

text \<open>
  The block that every collector repeats: \<^verbatim>\<open>strncpy\<close> of at most
  \<open>MAX_IP_LEN - 1\<close> characters into the slot at \<^verbatim>\<open>discovered_count\<close>, then the
  increment.  The static array has \<open>MAX_DISCOVERED_HOSTS\<close> slots; the model lets the
  list grow past that, where the C code writes out of bounds.
\<close>

definition store_host :: "string \<Rightarrow> int \<Rightarrow> state \<Rightarrow> state" where
  "store_host ip rt st =
     st\<lparr>hosts := hosts st @
        [\<lparr>ip_address = take (MAX_IP_LEN - 1) ip, response_time_ms = rt, is_reachable = 1\<rparr>]\<rparr>"

text \<open>The loop \<^verbatim>\<open>for (j = 0; j < discovered_count; j++) if (strcmp(...) == 0) ...\<close>.\<close>

primrec already_found :: "discovered_host list \<Rightarrow> string \<Rightarrow> bool" where
  "already_found [] ip = False"
| "already_found (h # hs) ip = (if ip_address h = ip then True else already_found hs ip)"

primrec in_list :: "string list \<Rightarrow> string \<Rightarrow> bool" where
  "in_list [] ip = False"
| "in_list (x # xs) ip = (if x = ip then True else in_list xs ip)"

section \<open>Address validation and the reachability prober\<close>

primrec ip_chars :: "string \<Rightarrow> int" where
  "ip_chars [] = 1"
| "ip_chars (c # cs) = (if \<not> is_digit c \<and> c \<noteq> CHR ''.'' then 0 else ip_chars cs)"

definition validate_ip_string :: "string option \<Rightarrow> int" where
  "validate_ip_string p =
     (case p of None \<Rightarrow> 0
      | Some s \<Rightarrow> if s = [] then 0 else ip_chars s)"

fun ping_scan :: "world \<Rightarrow> string list \<Rightarrow> int" where
  "ping_scan w [] = - 1"
| "ping_scan w (l # ls) =
     (case strstr l ''time='' of
        None \<Rightarrow> ping_scan w ls
      | Some t \<Rightarrow>
          (case time_ms w t of
             None \<Rightarrow> - 1
           | Some v \<Rightarrow> if v < 1 then 1 else v))"

definition ping_host_system :: "world \<Rightarrow> string \<Rightarrow> state \<Rightarrow> int \<times> state" where
  "ping_host_system w ip_addr st =
     (if validate_ip_string (Some ip_addr) = 0 then (- 1, st)
      else case run_popen w (take 255 (''ping -c 1 -W 1 '' @ ip_addr @ '' 2>/dev/null'')) st of
             (None, st1) \<Rightarrow> (- 1, st1)
           | (Some output, st1) \<Rightarrow> (ping_scan w (fgets_all 256 output), st1))"

section \<open>Octets and the subnet enumerator\<close>

type_synonym octets = "int \<times> int \<times> int \<times> int"

definition ip_format :: "conv list" where
  "ip_format = [Dec, Lit (CHR ''.''), Dec, Lit (CHR ''.''), Dec, Lit (CHR ''.''), Dec]"

text \<open>
  \<^verbatim>\<open>parse_ip\<close>: \<^verbatim>\<open>sscanf(ip, "%d.%d.%d.%d", ...)\<close> into an array that its callers
  leave uninitialised; the octets after the last successful conversion keep their
  indeterminate content.
\<close>

definition parse_ip :: "world \<Rightarrow> string \<Rightarrow> octets" where
  "parse_ip w ip =
     (case uninit w ip of (u0, u1, u2, u3) \<Rightarrow>
        (case sscanf ip_format ip of
           [SInt a, SInt b, SInt c, SInt d] \<Rightarrow> (a, b, c, d)
         | [SInt a, SInt b, SInt c] \<Rightarrow> (a, b, c, u3)
         | [SInt a, SInt b] \<Rightarrow> (a, b, u2, u3)
         | [SInt a] \<Rightarrow> (a, u1, u2, u3)
         | _ \<Rightarrow> (u0, u1, u2, u3)))"

text \<open>
  \<^verbatim>\<open>(1 << host_bits) - 2\<close> on a 32-bit \<^verbatim>\<open>int\<close>.  Where C leaves the shift or the
  subtraction undefined (a count outside 0..30) the model takes the count modulo 32 and
  wraps, as the x86 instructions do.
\<close>

definition shl_one :: "int \<Rightarrow> int" where
  "shl_one n = to_int32 (2 ^ nat (n mod 32))"

definition hosts_in_subnet :: "int \<Rightarrow> int" where
  "hosts_in_subnet host_bits = to_int32 (shl_one host_bits - 2)"

definition scan_target :: "octets \<Rightarrow> int \<Rightarrow> int \<Rightarrow> string" where
  "scan_target net host_bits i =
     (case net of (n0, n1, n2, n3) \<Rightarrow>
        if host_bits > 8
        then snprintf_quad MAX_IP_LEN n0 n1 (n2 + ((i - 1) sdiv 256)) (((i - 1) smod 256) + 1)
        else snprintf_quad MAX_IP_LEN n0 n1 n2 i)"

text \<open>One iteration of the loop of \<^verbatim>\<open>scan_subnet\<close> (lines 498 to 543).\<close>

definition scan_subnet_body ::
  "world \<Rightarrow> octets \<Rightarrow> int \<Rightarrow> int \<Rightarrow> int \<Rightarrow> int \<times> state \<Rightarrow> int \<times> state" where
  "scan_subnet_body w net host_bits max_hosts i acc =
     (case acc of (hosts_found, st) \<Rightarrow>
        (case ping_host_system w (scan_target net host_bits i) st of
           (response_time, st1) \<Rightarrow>
             (case (if response_time > 0 \<and> \<not> already_found (hosts st1) (scan_target net host_bits i)
                    then (hosts_found + 1, store_host (scan_target net host_bits i) response_time st1)
                    else (hosts_found, st1)) of
                (hosts_found2, st2) \<Rightarrow>
                  (hosts_found2,
                   if i smod 50 = 0 then printf (ScanProgress i max_hosts) st2 else st2))))"

function scan_subnet_loop ::
  "world \<Rightarrow> octets \<Rightarrow> int \<Rightarrow> int \<Rightarrow> int \<Rightarrow> int \<times> state \<Rightarrow> int \<times> state" where
  "scan_subnet_loop w net host_bits max_hosts i acc =
     (if i \<le> max_hosts \<and> discovered_count (snd acc) < MAX_DISCOVERED_HOSTS
      then scan_subnet_loop w net host_bits max_hosts (i + 1)
             (scan_subnet_body w net host_bits max_hosts i acc)
      else acc)"
  by pat_completeness auto
termination
  by (relation "measure (\<lambda>(w, net, host_bits, max_hosts, i, acc). nat (max_hosts + 1 - i))") auto

declare scan_subnet_loop.simps [simp del]

definition scan_subnet :: "world \<Rightarrow> string \<Rightarrow> int \<Rightarrow> state \<Rightarrow> int \<times> state" where
  "scan_subnet w network_addr prefix_len st =
     (let net_octets = parse_ip w network_addr;
          host_bits = 32 - prefix_len;
          max_hosts = (if hosts_in_subnet host_bits > 254 then 254 else hosts_in_subnet host_bits)
      in if max_hosts \<le> 0 then (0, st)
         else scan_subnet_loop w net_octets host_bits max_hosts 1 (0, st))"

section \<open>The sweep of the local network\<close>

definition netmask_word :: "octets \<Rightarrow> 32 word" where
  "netmask_word m =
     (case m of (m0, m1, m2, m3) \<Rightarrow>
        word_of_int (push_bit 24 m0 OR push_bit 16 m1 OR push_bit 8 m2 OR m3))"

function host_bits_loop :: "32 word \<Rightarrow> 32 word \<Rightarrow> nat \<Rightarrow> nat" where
  "host_bits_loop msk test host_bits =
     (if msk AND test = 0 \<and> host_bits < 32
      then host_bits_loop msk (push_bit 1 test) (host_bits + 1)
      else host_bits)"
  by pat_completeness auto
termination
  by (relation "measure (\<lambda>(msk, test, host_bits). 32 - host_bits)") auto

declare host_bits_loop.simps [simp del]

definition get_host_bits :: "world \<Rightarrow> string \<Rightarrow> int" where
  "get_host_bits w netmask = int (host_bits_loop (netmask_word (parse_ip w netmask)) 1 0)"

definition network_target :: "octets \<Rightarrow> octets \<Rightarrow> int \<Rightarrow> int \<Rightarrow> string" where
  "network_target net msk host_bits i =
     (case net of (n0, n1, n2, n3) \<Rightarrow>
        (case msk of (m0, m1, m2, m3) \<Rightarrow>
           if host_bits > 8
           then snprintf_quad MAX_IP_LEN n0 n1 (n2 + ((i - 1) sdiv 256))
                  ((n3 AND m3) + ((i - 1) smod 256) + 1)
           else snprintf_quad MAX_IP_LEN n0 n1 n2 ((n3 AND m3) + i)))"

definition discover_network_body ::
  "world \<Rightarrow> octets \<Rightarrow> octets \<Rightarrow> int \<Rightarrow> int \<Rightarrow> int \<Rightarrow> state \<Rightarrow> state" where
  "discover_network_body w net msk host_bits progress_step i st =
     (case ping_host_system w (network_target net msk host_bits i) st of
        (response_time, st1) \<Rightarrow>
          (let st2 = (if response_time > 0
                      then store_host (network_target net msk host_bits i) response_time st1
                      else st1)
           in if i smod progress_step = 0 then printf ProgressTick st2 else st2))"

function discover_network_loop ::
  "world \<Rightarrow> octets \<Rightarrow> octets \<Rightarrow> int \<Rightarrow> int \<Rightarrow> int \<Rightarrow> int \<Rightarrow> state \<Rightarrow> state" where
  "discover_network_loop w net msk host_bits progress_step max_hosts i st =
     (if i \<le> max_hosts \<and> discovered_count st < MAX_DISCOVERED_HOSTS
      then discover_network_loop w net msk host_bits progress_step max_hosts (i + 1)
             (discover_network_body w net msk host_bits progress_step i st)
      else st)"
  by pat_completeness auto
termination
  by (relation "measure (\<lambda>(w, net, msk, host_bits, progress_step, max_hosts, i, st).
        nat (max_hosts + 1 - i))") auto

declare discover_network_loop.simps [simp del]

definition discover_network :: "world \<Rightarrow> state \<Rightarrow> int \<times> state" where
  "discover_network w st =
     (let st0 = st\<lparr>hosts := []\<rparr>
      in case local_info w of
           None \<Rightarrow> (- 1, st0)
         | Some (local_ip, network_addr, netmask) \<Rightarrow>
             (let net_octets = parse_ip w network_addr;
                  mask_octets = parse_ip w netmask;
                  host_bits = get_host_bits w netmask;
                  max_hosts = (if hosts_in_subnet host_bits > 254 then 254
                               else hosts_in_subnet host_bits);
                  progress_step = (if max_hosts sdiv 20 < 1 then 1 else max_hosts sdiv 20);
                  st1 = discover_network_loop w net_octets mask_octets host_bits
                          progress_step max_hosts 1 st0
              in (int (discovered_count st1), st1)))"

section \<open>Passive collectors\<close>

definition arp_neigh_format :: "conv list" where
  "arp_neigh_format =
     [Str 15, Ws, Lit (CHR ''d''), Lit (CHR ''e''), Lit (CHR ''v''), Ws, Str 31, Ws,
      Lit (CHR ''l''), Lit (CHR ''l''), Lit (CHR ''a''), Lit (CHR ''d''), Lit (CHR ''d''),
      Lit (CHR ''r''), Ws, Str 31, Ws, Str 31]"

definition arp_a_format :: "conv list" where
  "arp_a_format =
     [SkipStr, Ws, Lit (CHR ''(''), NotIn 15 '')'', Lit (CHR '')''), Ws,
      Lit (CHR ''a''), Lit (CHR ''t''), Ws, Str 31]"

definition conn_format :: "conv list" where
  "conn_format = [SkipStr, Ws, SkipStr, Ws, SkipStr, Ws, Str 63, Ws, Str 63]"

definition arp_command :: string where
  "arp_command = ''ip neigh show 2>/dev/null || arp -a 2>/dev/null''"

definition conn_command :: string where
  "conn_command =
     ''ss -tn state established 2>/dev/null || netstat -tn 2>/dev/null | grep ESTABLISHED''"

definition route_command :: string where
  "route_command =
     ''ip route | grep default | awk '' @ [CHR 0x27] @ ''{print $3}'' @ [CHR 0x27] @
     '' 2>/dev/null || route -n | grep '' @ [CHR 0x27] @ ''^0.0.0.0'' @ [CHR 0x27] @
     '' | awk '' @ [CHR 0x27] @ ''{print $2}'' @ [CHR 0x27]"

text \<open>
  What one line of the neighbour table contributes: the address to record, if any, and
  the content of the \<^verbatim>\<open>state\<close> buffer afterwards.  The buffer is passed in because
  \<^verbatim>\<open>discover_automatic\<close> declares it outside its loop, so a line without a fourth
  field is judged by the state of an earlier line; \<^verbatim>\<open>discover_arp_cache\<close> resets it
  to the empty string on every line.
\<close>

definition arp_line :: "string \<Rightarrow> string \<Rightarrow> string option \<times> string" where
  "arp_line state_buf l =
     (case sscanf arp_neigh_format l of
        SStr ip # SStr iface # SStr mac # rest \<Rightarrow>
          (let state1 = (case rest of [SStr s] \<Rightarrow> s | _ \<Rightarrow> state_buf)
           in (if validate_ip_string (Some ip) \<noteq> 0 \<and> state1 \<noteq> ''FAILED''
               then Some ip else None, state1))
      | _ \<Rightarrow>
          (case sscanf arp_a_format l of
             SStr ip # SStr mac # rest \<Rightarrow>
               (if validate_ip_string (Some ip) \<noteq> 0 \<and> mac \<noteq> ''<incomplete>''
                then Some ip else None, state_buf)
           | _ \<Rightarrow> (None, state_buf)))"

text \<open>The remote address of one line of the connection table, if it is to be recorded.\<close>

definition conn_line :: "string \<Rightarrow> string option" where
  "conn_line l =
     (case sscanf conn_format l of
        [SStr local_addr, SStr remote_addr] \<Rightarrow>
          (case strrchr_split remote_addr (CHR '':'') of
             None \<Rightarrow> None
           | Some (before, port) \<Rightarrow>
               (let ip = (if take 7 before = ''::ffff:'' then drop 7 before else before)
                in if validate_ip_string (Some ip) \<noteq> 0 \<and> ip \<noteq> ''127.0.0.1''
                   then Some ip else None))
      | _ \<Rightarrow> None)"

text \<open>The loop of \<^verbatim>\<open>discover_arp_cache\<close> (lines 690 to 714): no duplicate check.\<close>

fun arp_cache_loop :: "string list \<Rightarrow> state \<Rightarrow> state" where
  "arp_cache_loop [] st = st"
| "arp_cache_loop (l # ls) st =
     (if discovered_count st < MAX_DISCOVERED_HOSTS
      then (case fst (arp_line [] l) of
              Some ip \<Rightarrow> arp_cache_loop ls (store_host ip 0 st)
            | None \<Rightarrow> arp_cache_loop ls st)
      else st)"

definition discover_arp_cache :: "world \<Rightarrow> state \<Rightarrow> int \<times> state" where
  "discover_arp_cache w st =
     (case run_popen w arp_command (st\<lparr>hosts := []\<rparr>) of
        (None, st1) \<Rightarrow> (- 1, st1)
      | (Some output, st1) \<Rightarrow>
          (let st2 = arp_cache_loop (fgets_all 512 output) st1
           in (int (discovered_count st2), st2)))"

text \<open>
  The neighbour-table loop of \<^verbatim>\<open>discover_automatic\<close> (lines 1423 to 1463), with its
  duplicate check.
\<close>

fun arp_dedup_loop :: "string list \<Rightarrow> string \<Rightarrow> state \<Rightarrow> state" where
  "arp_dedup_loop [] state_buf st = st"
| "arp_dedup_loop (l # ls) state_buf st =
     (if discovered_count st < MAX_DISCOVERED_HOSTS
      then (case arp_line state_buf l of
              (Some ip, state1) \<Rightarrow>
                arp_dedup_loop ls state1
                  (if \<not> already_found (hosts st) ip then store_host ip 0 st else st)
            | (None, state1) \<Rightarrow> arp_dedup_loop ls state1 st)
      else st)"

text \<open>
  The connection-table loop, identical in \<^verbatim>\<open>discover_netstat\<close>,
  \<^verbatim>\<open>discover_efficient\<close> and \<^verbatim>\<open>discover_automatic\<close>.
\<close>

fun conn_loop :: "string list \<Rightarrow> state \<Rightarrow> state" where
  "conn_loop [] st = st"
| "conn_loop (l # ls) st =
     (if discovered_count st < MAX_DISCOVERED_HOSTS
      then (case conn_line l of
              Some ip \<Rightarrow>
                conn_loop ls (if \<not> already_found (hosts st) ip then store_host ip 0 st else st)
            | None \<Rightarrow> conn_loop ls st)
      else st)"

definition discover_netstat :: "world \<Rightarrow> state \<Rightarrow> int \<times> state" where
  "discover_netstat w st =
     (case run_popen w conn_command (st\<lparr>hosts := []\<rparr>) of
        (None, st1) \<Rightarrow> (- 1, st1)
      | (Some output, st1) \<Rightarrow>
          (let st2 = conn_loop (fgets_all 512 output) st1
           in (int (discovered_count st2), st2)))"

definition strip_newline :: "string \<Rightarrow> string" where
  "strip_newline s = (if s \<noteq> [] \<and> last s = newline then butlast s else s)"

text \<open>
  \<^verbatim>\<open>discover_efficient\<close>: the neighbour table through \<^verbatim>\<open>discover_arp_cache\<close>, the
  connection table, then the default gateway, which is stored after a duplicate check and
  without a look at \<^verbatim>\<open>MAX_DISCOVERED_HOSTS\<close> (lines 954 to 969).
\<close>

definition efficient_gateway :: "world \<Rightarrow> state \<Rightarrow> state" where
  "efficient_gateway w st =
     (case run_popen w route_command st of
        (None, st1) \<Rightarrow> st1
      | (Some output, st1) \<Rightarrow>
          (if output = [] then st1
           else (let gateway = strip_newline (fst (fgets_take (MAX_IP_LEN - 1) output))
                 in if validate_ip_string (Some gateway) \<noteq> 0
                       \<and> \<not> already_found (hosts st1) gateway
                    then store_host gateway 0 st1 else st1)))"

definition efficient_connections :: "world \<Rightarrow> state \<Rightarrow> state" where
  "efficient_connections w st =
     (case run_popen w conn_command st of
        (None, st1) \<Rightarrow> st1
      | (Some output, st1) \<Rightarrow> conn_loop (fgets_all 512 output) st1)"

definition discover_efficient :: "world \<Rightarrow> state \<Rightarrow> int \<times> state" where
  "discover_efficient w st =
     (let st1 = snd (discover_arp_cache w (st\<lparr>hosts := []\<rparr>));
          st2 = efficient_connections w st1;
          st3 = efficient_gateway w st2
      in (int (discovered_count st3), st3))"

section \<open>Router query client\<close>

definition community_char :: "char \<Rightarrow> bool" where
  "community_char c =
     (is_alpha_lower c \<or> is_alpha_upper c \<or> is_digit c \<or> c = CHR ''_'' \<or> c = CHR ''-'')"

primrec community_chars :: "string \<Rightarrow> int" where
  "community_chars [] = 1"
| "community_chars (c # cs) = (if \<not> community_char c then 0 else community_chars cs)"

definition validate_community_string :: "string option \<Rightarrow> int" where
  "validate_community_string p =
     (case p of None \<Rightarrow> 0
      | Some s \<Rightarrow> if s = [] then 0 else community_chars s)"

definition snmpwalk_command :: "string \<Rightarrow> string \<Rightarrow> string \<Rightarrow> string" where
  "snmpwalk_command community router_ip oid =
     take 511 (''timeout 3 snmpwalk -v2c -c '' @ community @ '' '' @ router_ip @ '' '' @ oid @
               '' 2>/dev/null'')"

text \<open>
  The address on one line of \<^verbatim>\<open>snmpwalk\<close> output, as all four query functions
  extract it: after \<^verbatim>\<open>IpAddress:\<close> and blanks, a token of at most 15 characters that
  passes \<^verbatim>\<open>validate_ip_string\<close>.
\<close>

definition snmp_line_ip :: "string \<Rightarrow> string option" where
  "snmp_line_ip l =
     (case strstr l ''IpAddress:'' of
        None \<Rightarrow> None
      | Some t \<Rightarrow>
          (case sscanf [Str 15] (dropWhile (\<lambda>c. c = CHR '' '') (drop 10 t)) of
             [SStr ip] \<Rightarrow> if validate_ip_string (Some ip) \<noteq> 0 then Some ip else None
           | _ \<Rightarrow> None))"

text \<open>The loop that \<^verbatim>\<open>try_snmp_community\<close> and \<^verbatim>\<open>discover_snmp_arp\<close> share.\<close>

fun snmp_arp_loop :: "string list \<Rightarrow> int \<times> state \<Rightarrow> int \<times> state" where
  "snmp_arp_loop [] acc = acc"
| "snmp_arp_loop (l # ls) acc =
     (if discovered_count (snd acc) < MAX_DISCOVERED_HOSTS
      then (case snmp_line_ip l of
              Some ip \<Rightarrow>
                snmp_arp_loop ls
                  (if \<not> already_found (hosts (snd acc)) ip
                   then (fst acc + 1, store_host ip 0 (snd acc)) else acc)
            | None \<Rightarrow> snmp_arp_loop ls acc)
      else acc)"

definition try_snmp_community :: "world \<Rightarrow> string \<Rightarrow> string \<Rightarrow> state \<Rightarrow> int \<times> state" where
  "try_snmp_community w router_ip community st =
     (if validate_ip_string (Some router_ip) = 0 then (0, st)
      else if validate_community_string (Some community) = 0 then (0, st)
      else case run_popen w (snmpwalk_command community router_ip ''1.3.6.1.2.1.4.22.1.3'') st of
             (None, st1) \<Rightarrow> (0, st1)
           | (Some output, st1) \<Rightarrow> snmp_arp_loop (fgets_all 512 output) (0, st1))"

text \<open>
  \<^verbatim>\<open>discover_snmp_arp\<close> checks the community string in line, without the test for the
  empty string, and runs \<^verbatim>\<open>snmpwalk\<close> without \<^verbatim>\<open>timeout\<close>.
\<close>

definition discover_snmp_arp :: "world \<Rightarrow> string \<Rightarrow> string \<Rightarrow> state \<Rightarrow> int \<times> state" where
  "discover_snmp_arp w router_ip community st =
     (if validate_ip_string (Some router_ip) = 0 then (- 1, st)
      else if community_chars community = 0 then (- 1, st)
      else case run_popen w
                  (take 511 (''snmpwalk -v2c -c '' @ community @ '' '' @ router_ip @
                             '' 1.3.6.1.2.1.4.22.1.3 2>/dev/null'')) st of
             (None, st1) \<Rightarrow> (- 1, st1)
           | (Some output, st1) \<Rightarrow> snmp_arp_loop (fgets_all 512 output) (0, st1))"

definition is_private :: "octets \<Rightarrow> bool" where
  "is_private os =
     (case os of (o0, o1, o2, o3) \<Rightarrow>
        o0 = 10 \<or> (o0 = 172 \<and> o1 \<ge> 16 \<and> o1 \<le> 31) \<or> (o0 = 192 \<and> o1 = 168))"

fun nexthop_loop :: "world \<Rightarrow> string \<Rightarrow> int \<Rightarrow> string list \<Rightarrow> string list \<Rightarrow> string list" where
  "nexthop_loop w router_ip max_nexthops [] nexthops = nexthops"
| "nexthop_loop w router_ip max_nexthops (l # ls) nexthops =
     (if int (length nexthops) < max_nexthops
      then (case snmp_line_ip l of
              None \<Rightarrow> nexthop_loop w router_ip max_nexthops ls nexthops
            | Some ip \<Rightarrow>
                if ip = ''0.0.0.0'' then nexthop_loop w router_ip max_nexthops ls nexthops
                else if \<not> is_private (parse_ip w ip)
                  then nexthop_loop w router_ip max_nexthops ls nexthops
                else if ip = router_ip then nexthop_loop w router_ip max_nexthops ls nexthops
                else if in_list nexthops ip
                  then nexthop_loop w router_ip max_nexthops ls nexthops
                else nexthop_loop w router_ip max_nexthops ls
                       (nexthops @ [take (MAX_IP_LEN - 1) ip]))
      else nexthops)"

text \<open>
  The list returned is the array \<^verbatim>\<open>nexthops[0 .. *nexthop_count - 1]\<close>; the function's
  return value is its length.
\<close>

definition discover_nexthop_routers ::
  "world \<Rightarrow> string \<Rightarrow> string \<Rightarrow> int \<Rightarrow> state \<Rightarrow> string list \<times> state" where
  "discover_nexthop_routers w router_ip community max_nexthops st =
     (if validate_ip_string (Some router_ip) = 0 \<or> validate_community_string (Some community) = 0
      then ([], st)
      else case run_popen w (snmpwalk_command community router_ip ''1.3.6.1.2.1.4.21.1.7'') st of
             (None, st1) \<Rightarrow> ([], st1)
           | (Some output, st1) \<Rightarrow>
               (nexthop_loop w router_ip max_nexthops (fgets_all 512 output) [], st1))"

fun interfaces_loop :: "int \<Rightarrow> string list \<Rightarrow> string list \<Rightarrow> string list" where
  "interfaces_loop max_ifaces [] interfaces = interfaces"
| "interfaces_loop max_ifaces (l # ls) interfaces =
     (if int (length interfaces) < max_ifaces
      then (case snmp_line_ip l of
              None \<Rightarrow> interfaces_loop max_ifaces ls interfaces
            | Some ip \<Rightarrow>
                if take 4 ip = ''127.'' then interfaces_loop max_ifaces ls interfaces
                else if in_list interfaces ip then interfaces_loop max_ifaces ls interfaces
                else interfaces_loop max_ifaces ls (interfaces @ [take (MAX_IP_LEN - 1) ip]))
      else interfaces)"

definition discover_router_interfaces ::
  "world \<Rightarrow> string \<Rightarrow> string \<Rightarrow> int \<Rightarrow> state \<Rightarrow> string list \<times> state" where
  "discover_router_interfaces w router_ip community max_ifaces st =
     (if validate_ip_string (Some router_ip) = 0 \<or> validate_community_string (Some community) = 0
      then ([], st)
      else case run_popen w (snmpwalk_command community router_ip ''1.3.6.1.2.1.4.20.1.1'') st of
             (None, st1) \<Rightarrow> ([], st1)
           | (Some output, st1) \<Rightarrow>
               (interfaces_loop max_ifaces (fgets_all 512 output) [], st1))"

text \<open>
  \<^verbatim>\<open>get_default_gateway\<close>: the flag returned and the content of the caller's buffer
  (\<open>None\<close> where the buffer is left as it was).
\<close>

definition get_default_gateway :: "world \<Rightarrow> state \<Rightarrow> (int \<times> string option) \<times> state" where
  "get_default_gateway w st =
     (case run_popen w route_command st of
        (None, st1) \<Rightarrow> ((0, None), st1)
      | (Some output, st1) \<Rightarrow>
          (if output = [] then ((0, None), st1)
           else (let gateway = strip_newline (fst (fgets_take (MAX_IP_LEN - 1) output))
                 in ((validate_ip_string (Some gateway), Some gateway), st1))))"

section \<open>Automatic discovery: the walk over routers\<close>

definition communities :: "string list" where
  "communities = [''abc'', ''public'', ''private'', ''community'', ''cisco'']"

text \<open>Lines 1322 to 1340: the interfaces of a router go into the registry.\<close>

fun add_interfaces :: "string list \<Rightarrow> state \<Rightarrow> state" where
  "add_interfaces [] st = st"
| "add_interfaces (x # xs) st =
     (if discovered_count st < MAX_DISCOVERED_HOSTS
      then add_interfaces xs (if \<not> already_found (hosts st) x then store_host x 0 st else st)
      else st)"

text \<open>
  Lines 1349 to 1381: each next hop goes to the end of \<^verbatim>\<open>routers_to_query\<close> unless it
  is there already or the array is full, and into the registry.
\<close>

fun add_nexthops :: "string list \<Rightarrow> string list \<times> state \<Rightarrow> string list \<times> state" where
  "add_nexthops [] acc = acc"
| "add_nexthops (nh # nhs) acc =
     add_nexthops nhs
       (if \<not> in_list (fst acc) nh \<and> length (fst acc) < MAX_HOPS
        then fst acc @ [take (MAX_IP_LEN - 1) nh] else fst acc,
        if \<not> already_found (hosts (snd acc)) nh \<and> discovered_count (snd acc) < MAX_DISCOVERED_HOSTS
        then store_host nh 0 (snd acc) else snd acc)"

text \<open>
  The loop over the community strings for one router (lines 1304 to 1392): whether one of
  them answered, the routers to query and the state afterwards.
\<close>

fun try_communities ::
  "world \<Rightarrow> string \<Rightarrow> string list \<Rightarrow> string list \<times> state \<Rightarrow> bool \<times> string list \<times> state" where
  "try_communities w current_router [] acc = (False, acc)"
| "try_communities w current_router (c # cs) acc =
     (case discover_router_interfaces w current_router c (int MAX_HOPS) (snd acc) of
        (interfaces, st1) \<Rightarrow>
          if length interfaces > 0
          then (case discover_nexthop_routers w current_router c (int MAX_HOPS)
                       (add_interfaces interfaces st1) of
                  (nexthops, st3) \<Rightarrow>
                    (case add_nexthops nexthops (fst acc, st3) of
                       (routers, st4) \<Rightarrow>
                         (True, routers, snd (try_snmp_community w current_router c st4))))
          else try_communities w current_router cs (fst acc, st1))"

record walk =
  routers_queried :: nat
  routers_to_query :: "string list"
  snmp_success :: bool
  walk_state :: state

definition visit_router :: "world \<Rightarrow> walk \<Rightarrow> walk" where
  "visit_router w k =
     (case try_communities w (routers_to_query k ! routers_queried k) communities
             (routers_to_query k,
              printf (QueryingRouter (int (routers_queried k) + 1)
                        (routers_to_query k ! routers_queried k)) (walk_state k)) of
        (found_community, routers, st) \<Rightarrow>
          \<lparr>routers_queried = routers_queried k + 1, routers_to_query = routers,
           snmp_success = (snmp_success k \<or> found_community), walk_state = st\<rparr>)"

function router_walk :: "world \<Rightarrow> walk \<Rightarrow> walk" where
  "router_walk w k =
     (if routers_queried k < length (routers_to_query k) \<and> routers_queried k < MAX_HOPS
      then router_walk w (visit_router w k)
      else k)"
  by pat_completeness auto
termination
  by (relation "measure (\<lambda>(w, k). MAX_HOPS - routers_queried k)")
     (auto simp: visit_router_def split: prod.splits)

declare router_walk.simps [simp del]

text \<open>
  Steps 1 and 2 of \<^verbatim>\<open>discover_automatic\<close>: the gateway is found, stored and walked
  from; without a gateway the walk is skipped.
\<close>

definition automatic_snmp :: "world \<Rightarrow> state \<Rightarrow> walk" where
  "automatic_snmp w st =
     (case get_default_gateway w (st\<lparr>hosts := []\<rparr>) of
        ((ok, buf), st1) \<Rightarrow>
          (case buf of
             Some gateway \<Rightarrow>
               if ok = 0
               then \<lparr>routers_queried = 0, routers_to_query = [], snmp_success = False,
                     walk_state = st1\<rparr>
               else router_walk w
                      \<lparr>routers_queried = 0,
                       routers_to_query = [take (MAX_IP_LEN - 1) gateway],
                       snmp_success = False,
                       walk_state = store_host gateway 0 st1\<rparr>
           | None \<Rightarrow>
               \<lparr>routers_queried = 0, routers_to_query = [], snmp_success = False,
                walk_state = st1\<rparr>))"

definition automatic_arp :: "world \<Rightarrow> state \<Rightarrow> state" where
  "automatic_arp w st =
     (case run_popen w arp_command st of
        (None, st1) \<Rightarrow> st1
      | (Some output, st1) \<Rightarrow> arp_dedup_loop (fgets_all 512 output) [] st1)"

definition discover_automatic :: "world \<Rightarrow> state \<Rightarrow> int \<times> state" where
  "discover_automatic w st =
     (let st1 = walk_state (automatic_snmp w st);
          st2 = automatic_arp w st1;
          st3 = efficient_connections w st2
      in (int (discovered_count st3), st3))"

section \<open>The remaining entry points\<close>

definition quick_targets :: "int list" where
  "quick_targets =
     [1, 2, 3, 4, 5, 6, 7, 8, 9, 10, 11, 12, 13, 14, 15, 16, 17, 18, 19, 20, 100, 200, 254]"

definition ping_and_store :: "world \<Rightarrow> string \<Rightarrow> state \<Rightarrow> state" where
  "ping_and_store w ip st =
     (case ping_host_system w ip st of
        (response_time, st1) \<Rightarrow>
          if response_time > 0 then store_host ip response_time st1 else st1)"

fun quick_loop :: "world \<Rightarrow> octets \<Rightarrow> string \<Rightarrow> int list \<Rightarrow> state \<Rightarrow> state" where
  "quick_loop w net local_ip [] st = st"
| "quick_loop w net local_ip (t # ts) st =
     (if discovered_count st < MAX_DISCOVERED_HOSTS
      then (case net of (n0, n1, n2, n3) \<Rightarrow>
              if snprintf_quad MAX_IP_LEN n0 n1 n2 t = local_ip
              then quick_loop w net local_ip ts st
              else quick_loop w net local_ip ts
                     (ping_and_store w (snprintf_quad MAX_IP_LEN n0 n1 n2 t) st))
      else st)"

definition discover_network_quick :: "world \<Rightarrow> state \<Rightarrow> int \<times> state" where
  "discover_network_quick w st =
     (let st0 = st\<lparr>hosts := []\<rparr>
      in case local_info w of
           None \<Rightarrow> (- 1, st0)
         | Some (local_ip, network_addr, netmask) \<Rightarrow>
             (let st1 = ping_and_store w ''127.0.0.1'' st0;
                  st2 = ping_and_store w local_ip st1;
                  st3 = quick_loop w (parse_ip w network_addr) local_ip quick_targets st2
              in (int (discovered_count st3), st3)))"

text \<open>
  \<^verbatim>\<open>traceroute_discover\<close>: the return value and the hops written to the caller's
  array (\<^verbatim>\<open>*gateway_count\<close> is the length of the list).
\<close>

fun traceroute_loop :: "string list \<Rightarrow> string list \<Rightarrow> string list" where
  "traceroute_loop [] gateways = gateways"
| "traceroute_loop (l # ls) gateways =
     (if length gateways < MAX_HOPS
      then (case sscanf [Ws, Dec, Ws, Str 15] l of
              [SInt hop_num, SStr ip] \<Rightarrow>
                if validate_ip_string (Some ip) \<noteq> 0
                then traceroute_loop ls (gateways @ [take (MAX_IP_LEN - 1) ip])
                else traceroute_loop ls gateways
            | _ \<Rightarrow> traceroute_loop ls gateways)
      else gateways)"

definition traceroute_discover ::
  "world \<Rightarrow> string \<Rightarrow> state \<Rightarrow> (int \<times> string list) \<times> state" where
  "traceroute_discover w target_ip st =
     (if validate_ip_string (Some target_ip) = 0 then ((- 1, []), st)
      else case run_popen w
                  (take 255 (''traceroute -n -m 30 -w 1 '' @ target_ip @ '' 2>/dev/null'')) st of
             (None, st1) \<Rightarrow> ((- 1, []), st1)
           | (Some output, st1) \<Rightarrow>
               (let gateways = traceroute_loop (fgets_all 512 output) []
                in ((int (length gateways), gateways), st1)))"

text \<open>
  The prefix length that \<^verbatim>\<open>discover_multi_subnet\<close> counts off the netmask: leading
  one bits of a 32-bit value.
\<close>

lemma top_bit_ge: "(m :: 32 word) AND 0x80000000 \<noteq> 0 \<Longrightarrow> 2 ^ 31 \<le> unat m"
proof (rule ccontr)
  assume a: "m AND 0x80000000 \<noteq> 0" and b: "\<not> 2 ^ 31 \<le> unat m"
  from b have lt: "unat m < 2 ^ 31" by simp
  have "bit m 31" using a and_exp_eq_0_iff_not_bit [of m 31] by simp
  then have "bit (unat m) 31" by (simp add: bit_unsigned_iff)
  then have "odd (unat m div 2 ^ 31)" by (simp add: bit_iff_odd)
  with lt show False by simp
qed

lemma push_bit_top_less:
  "(m :: 32 word) AND 0x80000000 \<noteq> 0 \<Longrightarrow> unat (m * 2) < unat m"
proof -
  assume a: "m AND 0x80000000 \<noteq> 0"
  have ge: "2 ^ 31 \<le> unat m" using a by (rule top_bit_ge)
  have lt: "unat m < 2 ^ 32" using unsigned_less [of m, where 'a = nat] by simp
  have "unat (m * 2) = (unat m * 2) mod 2 ^ 32"
    by (simp add: unat_word_ariths)
  also have "\<dots> = unat m * 2 - 2 ^ 32"
    using ge lt by (simp add: mod_if)
  also have "\<dots> < unat m" using ge lt by simp
  finally show ?thesis .
qed

function prefix_loop :: "32 word \<Rightarrow> int \<Rightarrow> int" where
  "prefix_loop mask_val local_prefix =
     (if mask_val AND 0x80000000 \<noteq> 0
      then prefix_loop (push_bit 1 mask_val) (local_prefix + 1)
      else local_prefix)"
  by pat_completeness auto
termination
  by (relation "measure (\<lambda>(mask_val, local_prefix). unat mask_val)")
     (auto intro: push_bit_top_less)

declare prefix_loop.simps [simp del]

text \<open>Lines 607 to 637: the subnets of the first five hops of a trace are scanned as /24.\<close>

fun multi_gateways ::
  "world \<Rightarrow> string \<Rightarrow> string list \<Rightarrow> state \<Rightarrow> state" where
  "multi_gateways w network_addr [] st = st"
| "multi_gateways w network_addr (g # gs) st =
     (case parse_ip w g of (g0, g1, g2, g3) \<Rightarrow>
        (case parse_ip w network_addr of (l0, l1, l2, l3) \<Rightarrow>
           if is_private (g0, g1, g2, g3) \<and> \<not> (l0 = g0 \<and> l1 = g1 \<and> l2 = g2)
           then multi_gateways w network_addr gs
                  (snd (scan_subnet w
                          (take (MAX_IP_LEN - 1)
                             (show_int g0 @ ''.'' @ show_int g1 @ ''.'' @ show_int g2 @ ''.0''))
                          24 st))
           else multi_gateways w network_addr gs st))"

definition multi_trace :: "world \<Rightarrow> string \<Rightarrow> state \<Rightarrow> state" where
  "multi_trace w network_addr st =
     (case traceroute_discover w ''8.8.8.8'' st of
        ((r1, gateways1), st1) \<Rightarrow>
          if r1 > 0 then multi_gateways w network_addr (take 5 gateways1) st1
          else (case traceroute_discover w ''1.1.1.1'' st1 of
                  ((r2, gateways2), st2) \<Rightarrow>
                    if r2 > 0 then multi_gateways w network_addr (take 5 gateways2) st2
                    else st2))"

definition discover_multi_subnet :: "world \<Rightarrow> state \<Rightarrow> int \<times> state" where
  "discover_multi_subnet w st =
     (let st0 = st\<lparr>hosts := []\<rparr>
      in case local_info w of
           None \<Rightarrow> (- 1, st0)
         | Some (local_ip, network_addr, netmask) \<Rightarrow>
             (let local_prefix = prefix_loop (netmask_word (parse_ip w netmask)) 0;
                  st1 = snd (scan_subnet w network_addr local_prefix st0);
                  st2 = multi_trace w network_addr st1
              in (int (discovered_count st2), st2)))"

text \<open>
  \<^verbatim>\<open>strtol(s, &endptr, 10)\<close> followed by the cast to \<^verbatim>\<open>int\<close>: the value and what
  \<^verbatim>\<open>endptr\<close> points at.
\<close>

definition strtol :: "string \<Rightarrow> int \<times> string" where
  "strtol s =
     (let s1 = dropWhile isspace s;
          neg = (s1 \<noteq> [] \<and> hd s1 = CHR ''-'');
          s2 = (if s1 \<noteq> [] \<and> (hd s1 = CHR ''-'' \<or> hd s1 = CHR ''+'') then tl s1 else s1);
          ds = takeWhile is_digit s2
      in if ds = [] then (0, s) else (strtol_val neg ds, dropWhile is_digit s2))"

definition discover_custom_subnet :: "world \<Rightarrow> string \<Rightarrow> state \<Rightarrow> int \<times> state" where
  "discover_custom_subnet w subnet_cidr st =
     (let st0 = st\<lparr>hosts := []\<rparr>;
          before = takeWhile (\<lambda>c. c \<noteq> CHR ''/'') subnet_cidr;
          after = dropWhile (\<lambda>c. c \<noteq> CHR ''/'') subnet_cidr
      in if after \<noteq> []
         then (case strtol (tl after) of
                 (parsed_prefix, endp) \<Rightarrow>
                   if endp \<noteq> [] \<and> hd endp \<noteq> newline \<and> hd endp \<noteq> CHR '' ''
                   then (- 1, st0)
                   else if to_int32 parsed_prefix < 16 \<or> to_int32 parsed_prefix > 30
                   then (- 1, st0)
                   else if validate_ip_string (Some (take (MAX_IP_LEN - 1) before)) = 0
                   then (- 1, st0)
                   else scan_subnet w (take (MAX_IP_LEN - 1) before) (to_int32 parsed_prefix) st0)
         else if validate_ip_string (Some (take (MAX_IP_LEN - 1) subnet_cidr)) = 0
         then (- 1, st0)
         else scan_subnet w (take (MAX_IP_LEN - 1) subnet_cidr) 24 st0)"

section \<open>Notions used by the properties\<close>

text \<open>Every address in the registry passes \<^verbatim>\<open>validate_ip_string\<close>.\<close>

definition registry_valid :: "state \<Rightarrow> bool" where
  "registry_valid st = list_all (\<lambda>h. validate_ip_string (Some (ip_address h)) = 1) (hosts st)"

text \<open>An environment in which no command can be started, and the state before a run.\<close>

definition silent_world :: world where
  "silent_world =
     \<lparr>popen = (\<lambda>k cmd. None), time_ms = (\<lambda>t. None), local_info = None,
      uninit = (\<lambda>s. (0, 0, 0, 0))\<rparr>"

definition initial_state :: state where
  "initial_state = \<lparr>hosts = [], cmds = [], printed = []\<rparr>"

definition valid_list :: "string list \<Rightarrow> bool" where
  "valid_list xs = list_all (\<lambda>ip. validate_ip_string (Some ip) = 1) xs"

definition walk_valid :: "walk \<Rightarrow> bool" where
  "walk_valid k = (valid_list (routers_to_query k) \<and> registry_valid (walk_state k))"

definition dotted :: "nat \<Rightarrow> nat \<Rightarrow> nat \<Rightarrow> nat \<Rightarrow> string" where
  "dotted a b c d = show_nat a @ ''.'' @ show_nat b @ ''.'' @ show_nat c @ ''.'' @ show_nat d"

definition ping_command :: "string \<Rightarrow> string" where
  "ping_command ip = take 255 (''ping -c 1 -W 1 '' @ ip @ '' 2>/dev/null'')"

definition scan_progress :: "int \<Rightarrow> int \<Rightarrow> int \<Rightarrow> event list" where
  "scan_progress max_hosts i k =
     map (\<lambda>j. ScanProgress j max_hosts) (filter (\<lambda>j. j mod 50 = 0) [i..k])"

definition candidate_count :: "int \<Rightarrow> int" where
  "candidate_count p = min (2 ^ nat (32 - p) - 2) 254"

definition addr_value :: "octets \<Rightarrow> int" where
  "addr_value os = (case os of (a, b, c, d) \<Rightarrow> ((a * 256 + b) * 256 + c) * 256 + d)"

definition value_octets :: "int \<Rightarrow> octets" where
  "value_octets v = (v div 16777216 mod 256, v div 65536 mod 256, v div 256 mod 256, v mod 256)"

definition broadcast_address :: "octets \<Rightarrow> int \<Rightarrow> octets" where
  "broadcast_address net p = value_octets (addr_value net + 2 ^ nat (32 - p) - 1)"

definition host_bits_zero :: "octets \<Rightarrow> int \<Rightarrow> bool" where
  "host_bits_zero net p = (addr_value net mod 2 ^ nat (32 - p) = 0)"

definition dotted_quad :: "octets \<Rightarrow> string" where
  "dotted_quad os = (case os of (a, b, c, d) \<Rightarrow> snprintf_quad MAX_IP_LEN a b c d)"

definition full_registry_state :: state where
  "full_registry_state =
     \<lparr>hosts = map (\<lambda>i. \<lparr>ip_address = dotted_quad (10, 0, int (i div 256), int (i mod 256)),
                          response_time_ms = 1, is_reachable = 1\<rparr>) [0..<1024],
      cmds = [], printed = []\<rparr>"

definition local_max_hosts :: "world \<Rightarrow> string \<Rightarrow> int" where
  "local_max_hosts w netmask =
     (if hosts_in_subnet (get_host_bits w netmask) > 254 then 254
      else hosts_in_subnet (get_host_bits w netmask))"

definition progress_step :: "int \<Rightarrow> int" where
  "progress_step max_hosts = (if max_hosts sdiv 20 < 1 then 1 else max_hosts sdiv 20)"

definition lan_world :: world where
  "lan_world =
     \<lparr>popen = (\<lambda>k cmd. None), time_ms = (\<lambda>t. None),
      local_info = Some (''192.168.1.10'', ''192.168.1.0'', ''255.255.255.0''),
      uninit = (\<lambda>s. (0, 0, 0, 0))\<rparr>"

text \<open>
  A neighbour table in which one address is listed on two interfaces, as a host with a
  wired and a wireless link to the same network has it, and an environment whose only
  answering command is the one that prints this table.
\<close>

definition two_interface_neighbours :: string where
  "two_interface_neighbours =
     ''192.168.1.1 dev eth0 lladdr aa:bb:cc:dd:ee:ff REACHABLE'' @ [newline] @
     ''192.168.1.1 dev wlan0 lladdr aa:bb:cc:dd:ee:ff STALE'' @ [newline]"

definition two_interface_world :: world where
  "two_interface_world =
     \<lparr>popen = (\<lambda>k cmd. if cmd = arp_command then Some two_interface_neighbours else None),
      time_ms = (\<lambda>t. None), local_info = None, uninit = (\<lambda>s. (0, 0, 0, 0))\<rparr>"

definition neighbour_tail :: string where
  "neighbour_tail = '' dev eth0 lladdr aa:bb:cc:dd:ee:ff REACHABLE'' @ [newline]"

definition neighbour_ip :: "nat \<Rightarrow> string" where
  "neighbour_ip i = dotted_quad (10, 0, int (i div 256), int (i mod 256))"

definition neighbour_line :: "nat \<Rightarrow> string" where
  "neighbour_line i = neighbour_ip i @ neighbour_tail"

definition gateway_reply :: string where
  "gateway_reply = ''192.168.1.254'' @ [newline]"

definition crowded_world :: world where
  "crowded_world =
     \<lparr>popen = (\<lambda>k cmd.
         if cmd = arp_command then Some (concat (map neighbour_line [0..<1024]))
         else if cmd = route_command then Some gateway_reply
         else None),
      time_ms = (\<lambda>t. None), local_info = None, uninit = (\<lambda>s. (0, 0, 0, 0))\<rparr>"

text \<open>
  The state after the first \<open>k\<close> candidates of a sweep of \<^verbatim>\<open>scan_subnet\<close> have gone
  through the loop body, with no look at the registry bound in between.
\<close>

definition after_probes ::
  "world \<Rightarrow> octets \<Rightarrow> int \<Rightarrow> int \<Rightarrow> int \<Rightarrow> int \<times> state \<Rightarrow> int \<times> state" where
  "after_probes w net host_bits max_hosts k acc =
     foldl (\<lambda>acc i. scan_subnet_body w net host_bits max_hosts i acc) acc [1..k]"

text \<open>
  The state of \<^verbatim>\<open>discover_network\<close> after the first \<open>j\<close> candidates of its sweep have
  gone through the loop body.
\<close>

definition network_sweep :: "world \<Rightarrow> string \<Rightarrow> string \<Rightarrow> int \<Rightarrow> state \<Rightarrow> state" where
  "network_sweep w network_addr netmask j st =
     foldl (\<lambda>s i. discover_network_body w (parse_ip w network_addr) (parse_ip w netmask)
                    (get_host_bits w netmask) (progress_step (local_max_hosts w netmask)) i s)
       (st\<lparr>hosts := []\<rparr>) [1..j]"

text \<open>
  The routers that a run announces with \<^verbatim>\<open>printf("Querying router %d: %s\n", ...)\<close>
  (line 1302), in the order of the output.
\<close>

primrec queried_routers :: "event list \<Rightarrow> string list" where
  "queried_routers [] = []"
| "queried_routers (e # es) =
     (case e of QueryingRouter n r \<Rightarrow> r # queried_routers es | _ \<Rightarrow> queried_routers es)"

text \<open>
  What \<^verbatim>\<open>discover_nexthop_routers\<close> asks of an address before it returns it (lines 1141
  to 1153), and the length that fits a slot of \<^verbatim>\<open>MAX_IP_LEN\<close> characters.
\<close>

definition nexthop_ok :: "world \<Rightarrow> string \<Rightarrow> bool" where
  "nexthop_ok w ip = (is_private (parse_ip w ip) \<and> ip \<noteq> ''0.0.0.0'')"

definition short :: "string \<Rightarrow> bool" where
  "short ip = (length ip \<le> MAX_IP_LEN - 1)"

text \<open>
  The three tables that the walk reads from a router (interface addresses, next hops,
  neighbours), and the commands that read one of them from router \<open>r\<close> with one of the
  community strings of \<^verbatim>\<open>discover_automatic\<close>.
\<close>

definition snmp_oids :: "string list" where
  "snmp_oids = [''1.3.6.1.2.1.4.20.1.1'', ''1.3.6.1.2.1.4.21.1.7'', ''1.3.6.1.2.1.4.22.1.3'']"

definition addressed_to :: "string \<Rightarrow> string \<Rightarrow> bool" where
  "addressed_to r cmd =
     (\<exists>c oid. c \<in> set communities \<and> oid \<in> set snmp_oids \<and> cmd = snmpwalk_command c r oid)"

text \<open>
  The invariant of the loop over \<^verbatim>\<open>routers_to_query\<close>: its entries are distinct and at
  most \<^verbatim>\<open>MAX_HOPS\<close>, those after the first passed the next-hop filter, and the routers
  announced so far (after those in \<open>base\<close>, announced before the walk) are its first
  \<^verbatim>\<open>routers_queried\<close> entries.  \<open>walk_cmds\<close> says that the commands issued since
  \<open>cbase\<close> are one block per router queried, in that order, each addressed to its router.
\<close>

definition walk_ok :: "world \<Rightarrow> string list \<Rightarrow> walk \<Rightarrow> bool" where
  "walk_ok w base k =
     (distinct (routers_to_query k) \<and> length (routers_to_query k) \<le> MAX_HOPS
      \<and> routers_queried k \<le> length (routers_to_query k)
      \<and> list_all (nexthop_ok w) (tl (routers_to_query k))
      \<and> queried_routers (printed (walk_state k)) =
          base @ take (routers_queried k) (routers_to_query k))"

definition walk_cmds :: "string list \<Rightarrow> walk \<Rightarrow> bool" where
  "walk_cmds cbase k =
     (\<exists>qs. cmds (walk_state k) = cbase @ concat qs
        \<and> list_all2 (\<lambda>r q. list_all (addressed_to r) q)
             (take (routers_queried k) (routers_to_query k)) qs)"

text \<open>
  Membership of a 32-bit address value in the block \<open>base/len\<close>, and the three private
  blocks 10/8, 172.16/12 and 192.168/16.
\<close>

definition in_cidr :: "int \<Rightarrow> octets \<Rightarrow> nat \<Rightarrow> bool" where
  "in_cidr v base len = (v div 2 ^ (32 - len) = addr_value base div 2 ^ (32 - len))"

definition private_range :: "int \<Rightarrow> bool" where
  "private_range v =
     (in_cidr v (10, 0, 0, 0) 8 \<or> in_cidr v (172, 16, 0, 0) 12 \<or> in_cidr v (192, 168, 0, 0) 16)"

text \<open>
  An environment with two routers that answer the community \<^verbatim>\<open>abc\<close>: the gateway
  10.0.0.1 reports the next hops 0.0.0.0, 8.8.8.8, itself and 10.0.0.2, and 10.0.0.2
  reports 10.0.0.1, itself and 0.0.0.0.  Neither answers the neighbour-table query.
\<close>

definition snmp_reply :: "string list \<Rightarrow> string" where
  "snmp_reply ips = concat (map (\<lambda>ip. ''IP-MIB::ip = IpAddress: '' @ ip @ [newline]) ips)"

definition two_router_world :: world where
  "two_router_world =
     \<lparr>popen = (\<lambda>k cmd.
         if cmd = route_command then Some (''10.0.0.1'' @ [newline])
         else if cmd = snmpwalk_command ''abc'' ''10.0.0.1'' ''1.3.6.1.2.1.4.20.1.1''
           then Some (snmp_reply [''10.0.0.1''])
         else if cmd = snmpwalk_command ''abc'' ''10.0.0.1'' ''1.3.6.1.2.1.4.21.1.7''
           then Some (snmp_reply [''0.0.0.0'', ''8.8.8.8'', ''10.0.0.1'', ''10.0.0.2''])
         else if cmd = snmpwalk_command ''abc'' ''10.0.0.2'' ''1.3.6.1.2.1.4.20.1.1''
           then Some (snmp_reply [''10.0.0.2''])
         else if cmd = snmpwalk_command ''abc'' ''10.0.0.2'' ''1.3.6.1.2.1.4.21.1.7''
           then Some (snmp_reply [''10.0.0.1'', ''10.0.0.2'', ''0.0.0.0''])
         else None),
      time_ms = (\<lambda>t. None), local_info = None, uninit = (\<lambda>s. (0, 0, 0, 0))\<rparr>"

section \<open>Validation: what is accepted and what reaches the registry\<close>

lemma ip_chars_iff:
  "ip_chars s = (if list_all (\<lambda>c. is_digit c \<or> c = CHR ''.'') s then 1 else 0)"
  by (induction s) auto

lemma validate_ip_string_Some:
  "validate_ip_string (Some s) =
     (if s \<noteq> [] \<and> list_all (\<lambda>c. is_digit c \<or> c = CHR ''.'') s then 1 else 0)"
  by (simp add: validate_ip_string_def ip_chars_iff)

lemma community_chars_iff:
  "community_chars s = (if list_all community_char s then 1 else 0)"
  by (induction s) auto

lemma validate_community_string_Some:
  "validate_community_string (Some s) = (if s \<noteq> [] \<and> list_all community_char s then 1 else 0)"
  by (simp add: validate_community_string_def community_chars_iff)

lemma cmds_store_host [simp]: "cmds (store_host ip rt st) = cmds st"
  by (simp add: store_host_def)

lemma cmds_printf [simp]: "cmds (printf e st) = cmds st"
  by (simp add: printf_def)

lemma cmds_snmp_arp_loop [simp]: "cmds (snd (snmp_arp_loop ls acc)) = cmds (snd acc)"
  by (induction ls acc rule: snmp_arp_loop.induct) (auto split: option.splits)

lemma ping_accepts:
  "validate_ip_string (Some ip) = 1 \<Longrightarrow>
   cmds (snd (ping_host_system w ip st)) =
     cmds st @ [take 255 (''ping -c 1 -W 1 '' @ ip @ '' 2>/dev/null'')]"
  by (simp add: ping_host_system_def run_popen_def split: option.splits)

lemma try_snmp_accepts:
  "validate_ip_string (Some ip) = 1 \<Longrightarrow> validate_community_string (Some c) = 1 \<Longrightarrow>
   cmds (snd (try_snmp_community w ip c st)) =
     cmds st @ [snmpwalk_command c ip ''1.3.6.1.2.1.4.22.1.3'']"
  by (simp add: try_snmp_community_def run_popen_def split: option.splits)

lemma nexthop_accepts:
  "validate_ip_string (Some ip) = 1 \<Longrightarrow> validate_community_string (Some c) = 1 \<Longrightarrow>
   cmds (snd (discover_nexthop_routers w ip c m st)) =
     cmds st @ [snmpwalk_command c ip ''1.3.6.1.2.1.4.21.1.7'']"
  by (simp add: discover_nexthop_routers_def run_popen_def split: option.splits)

lemma interfaces_accepts:
  "validate_ip_string (Some ip) = 1 \<Longrightarrow> validate_community_string (Some c) = 1 \<Longrightarrow>
   cmds (snd (discover_router_interfaces w ip c m st)) =
     cmds st @ [snmpwalk_command c ip ''1.3.6.1.2.1.4.20.1.1'']"
  by (simp add: discover_router_interfaces_def run_popen_def split: option.splits)

lemma snmp_arp_accepts:
  "validate_ip_string (Some ip) = 1 \<Longrightarrow> community_chars c = 1 \<Longrightarrow>
   cmds (snd (discover_snmp_arp w ip c st)) =
     cmds st @ [take 511 (''snmpwalk -v2c -c '' @ c @ '' '' @ ip @
                             '' 1.3.6.1.2.1.4.22.1.3 2>/dev/null'')]"
  by (simp add: discover_snmp_arp_def run_popen_def split: option.splits)

lemma ex1: "validate_ip_string (Some ''999.999.999.999'') = 1"
  by (simp add: validate_ip_string_def is_digit_def)
lemma ex2: "validate_ip_string (Some ''1..2'') = 1"
  by (simp add: validate_ip_string_def is_digit_def)
lemma ex3: "validate_ip_string (Some ''....'') = 1"
  by (simp add: validate_ip_string_def is_digit_def)

lemma rejects:
  assumes "\<not> list_all (\<lambda>c. is_digit c \<or> c = CHR ''.'') ip"
  shows "ping_host_system w ip st = (- 1, st)"
    "try_snmp_community w ip c st = (0, st)"
    "discover_nexthop_routers w ip c m st = ([], st)"
    "discover_router_interfaces w ip c m st = ([], st)"
    "discover_snmp_arp w ip c st = (- 1, st)"
  using assms
  by (simp_all add: ping_host_system_def try_snmp_community_def discover_nexthop_routers_def
      discover_router_interfaces_def discover_snmp_arp_def validate_ip_string_Some)

lemma validate_ip_string_01: "validate_ip_string p \<noteq> 0 \<longleftrightarrow> validate_ip_string p = 1"
  by (cases p) (auto simp: validate_ip_string_def ip_chars_iff)

lemma validate_take:
  "validate_ip_string (Some ip) = 1 \<Longrightarrow> 0 < n \<Longrightarrow> validate_ip_string (Some (take n ip)) = 1"
  by (cases ip; cases n)
     (auto simp: validate_ip_string_Some list_all_iff dest: in_set_takeD split: if_splits)

lemma hosts_printf [simp]: "hosts (printf e st) = hosts st"
  by (simp add: printf_def)

lemma hosts_run_popen [simp]: "hosts (snd (run_popen w c st)) = hosts st"
  by (simp add: run_popen_def)

lemma registry_valid_printf [simp]: "registry_valid (printf e st) = registry_valid st"
  by (simp add: registry_valid_def)

lemma registry_valid_reset [simp]: "registry_valid (st\<lparr>hosts := []\<rparr>)"
  by (simp add: registry_valid_def)

lemma registry_valid_store:
  "validate_ip_string (Some ip) = 1 \<Longrightarrow> registry_valid st \<Longrightarrow> registry_valid (store_host ip rt st)"
  by (simp add: registry_valid_def store_host_def validate_take MAX_IP_LEN_def)

lemma registry_valid_run_popen:
  "run_popen w c st = (r, st1) \<Longrightarrow> registry_valid st1 = registry_valid st"
  by (auto simp: run_popen_def registry_valid_def)

lemma hosts_ping [simp]: "hosts (snd (ping_host_system w ip st)) = hosts st"
  by (simp add: ping_host_system_def run_popen_def split: option.splits)

lemma ping_positive_valid:
  "fst (ping_host_system w ip st) > 0 \<Longrightarrow> validate_ip_string (Some ip) = 1"
  by (cases "validate_ip_string (Some ip) = 0")
     (auto simp: ping_host_system_def validate_ip_string_01)

lemma registry_valid_ping:
  "ping_host_system w ip st = (rt, st1) \<Longrightarrow> registry_valid st1 = registry_valid st"
  using hosts_ping [of w ip st] by (simp add: registry_valid_def)

lemma registry_valid_ping_and_store:
  "registry_valid st \<Longrightarrow> registry_valid (ping_and_store w ip st)"
proof -
  assume v: "registry_valid st"
  obtain rt st1 where p: "ping_host_system w ip st = (rt, st1)" by (cases "ping_host_system w ip st")
  have v1: "registry_valid st1" using registry_valid_ping [OF p] v by simp
  show ?thesis
  proof (cases "rt > 0")
    case True
    then have "validate_ip_string (Some ip) = 1" using ping_positive_valid [of w ip st] p by simp
    then show ?thesis using p True v1 by (simp add: ping_and_store_def registry_valid_store)
  next
    case False
    then show ?thesis using p v1 by (simp add: ping_and_store_def)
  qed
qed

lemma registry_valid_scan_body:
  "registry_valid (snd acc) \<Longrightarrow> registry_valid (snd (scan_subnet_body w net hb mx i acc))"
proof -
  assume v: "registry_valid (snd acc)"
  obtain hf st where acc: "acc = (hf, st)" by (cases acc)
  obtain rt st1 where p: "ping_host_system w (scan_target net hb i) st = (rt, st1)"
    by (cases "ping_host_system w (scan_target net hb i) st")
  have v1: "registry_valid st1" using registry_valid_ping [OF p] v acc by simp
  have "rt > 0 \<Longrightarrow> validate_ip_string (Some (scan_target net hb i)) = 1"
    using ping_positive_valid [of w "scan_target net hb i" st] p by simp
  then show ?thesis using acc p v1
    by (auto simp: scan_subnet_body_def registry_valid_store)
qed

lemma registry_valid_scan_loop:
  "registry_valid (snd acc) \<Longrightarrow> registry_valid (snd (scan_subnet_loop w net hb mx i acc))"
proof (induction w net hb mx i acc rule: scan_subnet_loop.induct)
  case (1 w net hb mx i acc)
  show ?case
  proof (cases "i \<le> mx \<and> discovered_count (snd acc) < MAX_DISCOVERED_HOSTS")
    case True
    then show ?thesis
      using 1 registry_valid_scan_body [of acc w net hb mx i]
      by (subst scan_subnet_loop.simps) simp
  next
    case False
    then show ?thesis using 1 by (subst scan_subnet_loop.simps) auto
  qed
qed

lemma registry_valid_scan_subnet:
  "registry_valid st \<Longrightarrow> registry_valid (snd (scan_subnet w a p st))"
  unfolding scan_subnet_def Let_def
  by (simp only: split: if_splits) (simp add: registry_valid_scan_loop)

lemma registry_valid_network_body:
  "registry_valid st \<Longrightarrow> registry_valid (discover_network_body w net msk hb ps i st)"
proof -
  assume v: "registry_valid st"
  obtain rt st1 where p: "ping_host_system w (network_target net msk hb i) st = (rt, st1)"
    by (cases "ping_host_system w (network_target net msk hb i) st")
  have v1: "registry_valid st1" using registry_valid_ping [OF p] v by simp
  have "rt > 0 \<Longrightarrow> validate_ip_string (Some (network_target net msk hb i)) = 1"
    using ping_positive_valid [of w "network_target net msk hb i" st] p by simp
  then show ?thesis using p v1
    by (auto simp: discover_network_body_def Let_def registry_valid_store)
qed

lemma registry_valid_network_loop:
  "registry_valid st \<Longrightarrow> registry_valid (discover_network_loop w net msk hb ps mx i st)"
proof (induction w net msk hb ps mx i st rule: discover_network_loop.induct)
  case (1 w net msk hb ps mx i st)
  show ?case
  proof (cases "i \<le> mx \<and> discovered_count st < MAX_DISCOVERED_HOSTS")
    case True
    then show ?thesis
      using 1 registry_valid_network_body [of st w net msk hb ps i]
      by (subst discover_network_loop.simps) simp
  next
    case False
    then show ?thesis using 1 by (subst discover_network_loop.simps) auto
  qed
qed

lemma registry_valid_discover_network: "registry_valid (snd (discover_network w st))"
proof (cases "local_info w")
  case None
  then show ?thesis by (simp add: discover_network_def)
next
  case (Some t)
  obtain a b c where t: "t = (a, b, c)" by (cases t)
  show ?thesis using Some t
    by (simp add: discover_network_def Let_def registry_valid_network_loop)
qed

lemma registry_valid_quick_loop:
  "registry_valid st \<Longrightarrow> registry_valid (quick_loop w net lip ts st)"
proof (induction w net lip ts st rule: quick_loop.induct)
  case (1 w net lip st)
  then show ?case by simp
next
  case (2 w net lip t ts st)
  obtain n0 n1 n2 n3 where n: "net = (n0, n1, n2, n3)" by (cases net)
  show ?case using 2 n by (simp add: registry_valid_ping_and_store)
qed

lemma registry_valid_discover_network_quick: "registry_valid (snd (discover_network_quick w st))"
proof (cases "local_info w")
  case None
  then show ?thesis by (simp add: discover_network_quick_def)
next
  case (Some t)
  obtain a b c where t: "t = (a, b, c)" by (cases t)
  show ?thesis using Some t
    by (simp add: discover_network_quick_def Let_def registry_valid_quick_loop
        registry_valid_ping_and_store)
qed

lemma arp_line_valid: "fst (arp_line sb l) = Some ip \<Longrightarrow> validate_ip_string (Some ip) = 1"
  by (auto simp: arp_line_def Let_def validate_ip_string_01
      split: list.splits sval.splits if_splits)

lemma conn_line_valid: "conn_line l = Some ip \<Longrightarrow> validate_ip_string (Some ip) = 1"
  by (auto simp: conn_line_def Let_def validate_ip_string_01
      split: list.splits sval.splits if_splits option.splits)

lemma snmp_line_ip_valid: "snmp_line_ip l = Some ip \<Longrightarrow> validate_ip_string (Some ip) = 1"
  by (auto simp: snmp_line_ip_def validate_ip_string_01
      split: list.splits sval.splits if_splits option.splits)

lemma registry_valid_arp_cache_loop:
  "registry_valid st \<Longrightarrow> registry_valid (arp_cache_loop ls st)"
proof (induction ls st rule: arp_cache_loop.induct)
  case (1 st)
  then show ?case by simp
next
  case (2 l ls st)
  show ?case
  proof (cases "fst (arp_line [] l)")
    case None
    then show ?thesis using 2 by simp
  next
    case (Some ip)
    then have "registry_valid (store_host ip 0 st)"
      using "2.prems" arp_line_valid registry_valid_store by blast
    then show ?thesis using 2 Some by simp
  qed
qed

lemma registry_valid_discover_arp_cache: "registry_valid (snd (discover_arp_cache w st))"
  by (simp add: discover_arp_cache_def run_popen_def Let_def registry_valid_arp_cache_loop
      registry_valid_def [of "_\<lparr>cmds := _\<rparr>"] split: option.splits)

lemma valid_list_simps [simp]:
  "valid_list []"
  "valid_list (x # xs) = (validate_ip_string (Some x) = 1 \<and> valid_list xs)"
  "valid_list (xs @ ys) = (valid_list xs \<and> valid_list ys)"
  by (simp_all add: valid_list_def)

lemma registry_valid_snmp_arp_loop:
  "registry_valid (snd acc) \<Longrightarrow> registry_valid (snd (snmp_arp_loop ls acc))"
proof (induction ls acc rule: snmp_arp_loop.induct)
  case (1 acc)
  then show ?case by simp
next
  case (2 l ls acc)
  show ?case
  proof (cases "snmp_line_ip l")
    case None
    then show ?thesis using 2 by simp
  next
    case (Some ip)
    then have "registry_valid (store_host ip 0 (snd acc))"
      using "2.prems" snmp_line_ip_valid registry_valid_store by blast
    then show ?thesis using 2 Some by simp
  qed
qed

lemma registry_valid_cmds_update [simp]:
  "registry_valid (st\<lparr>cmds := c\<rparr>) = registry_valid st"
  by (simp add: registry_valid_def)

lemma registry_valid_try_snmp:
  "registry_valid st \<Longrightarrow> registry_valid (snd (try_snmp_community w r c st))"
  by (simp add: try_snmp_community_def run_popen_def registry_valid_snmp_arp_loop
      split: option.splits)

lemma registry_valid_discover_snmp_arp:
  "registry_valid st \<Longrightarrow> registry_valid (snd (discover_snmp_arp w r c st))"
  by (simp add: discover_snmp_arp_def run_popen_def registry_valid_snmp_arp_loop
      split: option.splits)

lemma registry_valid_conn_loop:
  "registry_valid st \<Longrightarrow> registry_valid (conn_loop ls st)"
proof (induction ls st rule: conn_loop.induct)
  case (1 st)
  then show ?case by simp
next
  case (2 l ls st)
  show ?case
  proof (cases "conn_line l")
    case None
    then show ?thesis using 2 by simp
  next
    case (Some ip)
    then have "registry_valid (store_host ip 0 st)"
      using "2.prems" conn_line_valid registry_valid_store by blast
    then show ?thesis using 2 Some by simp
  qed
qed

lemma registry_valid_discover_netstat: "registry_valid (snd (discover_netstat w st))"
  by (simp add: discover_netstat_def run_popen_def Let_def registry_valid_conn_loop
      split: option.splits)

lemma registry_valid_efficient_connections:
  "registry_valid st \<Longrightarrow> registry_valid (efficient_connections w st)"
  by (simp add: efficient_connections_def run_popen_def registry_valid_conn_loop
      split: option.splits)

lemma registry_valid_efficient_gateway:
  "registry_valid st \<Longrightarrow> registry_valid (efficient_gateway w st)"
  by (simp add: efficient_gateway_def run_popen_def Let_def registry_valid_store
      validate_ip_string_01 split: option.splits)

lemma registry_valid_discover_efficient: "registry_valid (snd (discover_efficient w st))"
  by (simp add: discover_efficient_def Let_def registry_valid_efficient_gateway
      registry_valid_efficient_connections registry_valid_discover_arp_cache)

lemma registry_valid_arp_dedup_loop:
  "registry_valid st \<Longrightarrow> registry_valid (arp_dedup_loop ls sb st)"
proof (induction ls sb st rule: arp_dedup_loop.induct)
  case (1 sb st)
  then show ?case by simp
next
  case (2 l ls sb st)
  obtain r s1 where al: "arp_line sb l = (r, s1)" by (cases "arp_line sb l")
  show ?case
  proof (cases r)
    case None
    then show ?thesis using 2 al by simp
  next
    case (Some ip)
    then have "validate_ip_string (Some ip) = 1" using al arp_line_valid [of sb l ip] by simp
    then have "registry_valid (store_host ip 0 st)"
      using "2.prems" registry_valid_store by blast
    then show ?thesis using 2 Some al by simp
  qed
qed

lemma registry_valid_automatic_arp:
  "registry_valid st \<Longrightarrow> registry_valid (automatic_arp w st)"
  by (simp add: automatic_arp_def run_popen_def registry_valid_arp_dedup_loop
      split: option.splits)

lemma registry_valid_add_interfaces:
  "valid_list xs \<Longrightarrow> registry_valid st \<Longrightarrow> registry_valid (add_interfaces xs st)"
  by (induction xs st rule: add_interfaces.induct) (auto simp: registry_valid_store)

lemma add_nexthops_valid:
  "valid_list nhs \<Longrightarrow> valid_list (fst acc) \<Longrightarrow> registry_valid (snd acc) \<Longrightarrow>
   valid_list (fst (add_nexthops nhs acc)) \<and> registry_valid (snd (add_nexthops nhs acc))"
proof (induction nhs acc rule: add_nexthops.induct)
  case (1 acc)
  then show ?case by simp
next
  case (2 nh nhs acc)
  have v: "validate_ip_string (Some nh) = 1" and vs: "valid_list nhs"
    using "2.prems"(1) by simp_all
  have a: "valid_list (fst acc @ [take (MAX_IP_LEN - 1) nh])"
    using "2.prems"(2) v by (simp add: validate_take MAX_IP_LEN_def)
  have b: "registry_valid (store_host nh 0 (snd acc))"
    using v "2.prems"(3) by (rule registry_valid_store)
  show ?case
    unfolding add_nexthops.simps
    by (rule "2.IH") (use vs a b "2.prems" in \<open>auto\<close>)
qed

lemma nexthop_loop_valid:
  "valid_list acc \<Longrightarrow> valid_list (nexthop_loop w r m ls acc)"
proof (induction w r m ls acc rule: nexthop_loop.induct)
  case (1 w r m acc)
  then show ?case by simp
next
  case (2 w r m l ls acc)
  show ?case
  proof (cases "snmp_line_ip l")
    case None
    then show ?thesis using 2 by simp
  next
    case (Some ip)
    then have "validate_ip_string (Some ip) = 1" by (rule snmp_line_ip_valid)
    then have "valid_list (acc @ [take (MAX_IP_LEN - 1) ip])"
      using "2.prems" by (simp add: validate_take MAX_IP_LEN_def)
    then show ?thesis using 2 Some by simp
  qed
qed

lemma interfaces_loop_valid:
  "valid_list acc \<Longrightarrow> valid_list (interfaces_loop m ls acc)"
proof (induction m ls acc rule: interfaces_loop.induct)
  case (1 m acc)
  then show ?case by simp
next
  case (2 m l ls acc)
  show ?case
  proof (cases "snmp_line_ip l")
    case None
    then show ?thesis using 2 by simp
  next
    case (Some ip)
    then have "validate_ip_string (Some ip) = 1" by (rule snmp_line_ip_valid)
    then have "valid_list (acc @ [take (MAX_IP_LEN - 1) ip])"
      using "2.prems" by (simp add: validate_take MAX_IP_LEN_def)
    then show ?thesis using 2 Some by simp
  qed
qed

lemma discover_nexthop_routers_valid:
  "valid_list (fst (discover_nexthop_routers w r c m st))"
  by (simp add: discover_nexthop_routers_def nexthop_loop_valid split: option.splits prod.splits)

lemma discover_router_interfaces_valid:
  "valid_list (fst (discover_router_interfaces w r c m st))"
  by (simp add: discover_router_interfaces_def interfaces_loop_valid
      split: option.splits prod.splits)

lemma registry_valid_nexthop_routers:
  "registry_valid (snd (discover_nexthop_routers w r c m st)) = registry_valid st"
  by (simp add: discover_nexthop_routers_def run_popen_def split: option.splits)

lemma registry_valid_router_interfaces:
  "registry_valid (snd (discover_router_interfaces w r c m st)) = registry_valid st"
  by (simp add: discover_router_interfaces_def run_popen_def split: option.splits)

lemma try_communities_valid:
  "valid_list (fst acc) \<Longrightarrow> registry_valid (snd acc) \<Longrightarrow>
   valid_list (fst (snd (try_communities w r cs acc))) \<and>
   registry_valid (snd (snd (try_communities w r cs acc)))"
proof (induction w r cs acc rule: try_communities.induct)
  case (1 w r acc)
  then show ?case by simp
next
  case (2 w r c cs acc)
  obtain ifs st1 where i: "discover_router_interfaces w r c (int MAX_HOPS) (snd acc) = (ifs, st1)"
    by (cases "discover_router_interfaces w r c (int MAX_HOPS) (snd acc)")
  have vi: "valid_list ifs"
    using discover_router_interfaces_valid [of w r c "int MAX_HOPS" "snd acc"] i by simp
  have v1: "registry_valid st1"
    using registry_valid_router_interfaces [of w r c "int MAX_HOPS" "snd acc"] i "2.prems" by simp
  show ?case
  proof (cases "length ifs > 0")
    case False
    then show ?thesis using "2.IH" [OF i [symmetric]] i "2.prems" v1 by simp
  next
    case True
    let ?st2 = "add_interfaces ifs st1"
    have v2: "registry_valid ?st2" using vi v1 by (rule registry_valid_add_interfaces)
    obtain nhs st3 where n: "discover_nexthop_routers w r c (int MAX_HOPS) ?st2 = (nhs, st3)"
      by (cases "discover_nexthop_routers w r c (int MAX_HOPS) ?st2")
    have vn: "valid_list nhs"
      using discover_nexthop_routers_valid [of w r c "int MAX_HOPS" ?st2] n by simp
    have v3: "registry_valid st3"
      using registry_valid_nexthop_routers [of w r c "int MAX_HOPS" ?st2] n v2 by simp
    obtain rs st4 where a: "add_nexthops nhs (fst acc, st3) = (rs, st4)"
      by (cases "add_nexthops nhs (fst acc, st3)")
    have v4: "valid_list rs \<and> registry_valid st4"
      using add_nexthops_valid [of nhs "(fst acc, st3)"] vn "2.prems"(1) v3 a by simp
    then have "registry_valid (snd (try_snmp_community w r c st4))"
      by (simp add: registry_valid_try_snmp)
    then show ?thesis using True i n a v4 by simp
  qed
qed

lemma visit_router_valid: "walk_valid k \<Longrightarrow> walk_valid (visit_router w k)"
proof -
  assume v: "walk_valid k"
  let ?acc = "(routers_to_query k,
              printf (QueryingRouter (int (routers_queried k) + 1)
                        (routers_to_query k ! routers_queried k)) (walk_state k))"
  have "valid_list (fst (snd (try_communities w (routers_to_query k ! routers_queried k) communities ?acc))) \<and>
   registry_valid (snd (snd (try_communities w (routers_to_query k ! routers_queried k) communities ?acc)))"
    by (rule try_communities_valid) (use v in \<open>simp_all add: walk_valid_def\<close>)
  then show ?thesis
    by (auto simp: visit_router_def walk_valid_def split: prod.splits)
qed

lemma router_walk_valid: "walk_valid k \<Longrightarrow> walk_valid (router_walk w k)"
proof (induction w k rule: router_walk.induct)
  case (1 w k)
  show ?case
  proof (cases "routers_queried k < length (routers_to_query k) \<and> routers_queried k < MAX_HOPS")
    case True
    then show ?thesis
      using "1.IH" "1.prems" visit_router_valid [of k w]
      by (subst router_walk.simps) simp
  next
    case False
    then show ?thesis using "1.prems" by (subst router_walk.simps) auto
  qed
qed

lemma automatic_snmp_valid: "walk_valid (automatic_snmp w st)"
proof -
  obtain ok buf st1 where g: "get_default_gateway w (st\<lparr>hosts := []\<rparr>) = ((ok, buf), st1)"
    by (cases "get_default_gateway w (st\<lparr>hosts := []\<rparr>)") auto
  have v1: "registry_valid st1"
    using g by (auto simp: get_default_gateway_def run_popen_def Let_def
        split: option.splits if_splits)
  show ?thesis
  proof (cases buf)
    case None
    then show ?thesis using g v1 by (simp add: automatic_snmp_def walk_valid_def)
  next
    case (Some gateway)
    show ?thesis
    proof (cases "ok = 0")
      case True
      then show ?thesis using g v1 Some by (simp add: automatic_snmp_def walk_valid_def)
    next
      case False
      have "ok = validate_ip_string (Some gateway)"
        using g Some by (auto simp: get_default_gateway_def run_popen_def Let_def
            split: option.splits if_splits)
      then have vg: "validate_ip_string (Some gateway) = 1"
        using False validate_ip_string_01 by simp
      have "walk_valid \<lparr>routers_queried = 0,
                       routers_to_query = [take (MAX_IP_LEN - 1) gateway],
                       snmp_success = False,
                       walk_state = store_host gateway 0 st1\<rparr>"
        using vg v1 by (simp add: walk_valid_def validate_take MAX_IP_LEN_def registry_valid_store)
      then show ?thesis using g Some False
        by (simp add: automatic_snmp_def router_walk_valid)
    qed
  qed
qed

lemma registry_valid_discover_automatic: "registry_valid (snd (discover_automatic w st))"
  using automatic_snmp_valid [of w st]
  by (simp add: discover_automatic_def Let_def walk_valid_def
      registry_valid_efficient_connections registry_valid_automatic_arp)

lemma registry_valid_traceroute:
  "registry_valid (snd (traceroute_discover w t st)) = registry_valid st"
  by (simp add: traceroute_discover_def run_popen_def Let_def split: option.splits)

lemma registry_valid_multi_gateways:
  "registry_valid st \<Longrightarrow> registry_valid (multi_gateways w na gs st)"
proof (induction w na gs st rule: multi_gateways.induct)
  case (1 w na st)
  then show ?case by simp
next
  case (2 w na g gs st)
  obtain g0 g1 g2 g3 where pg: "parse_ip w g = (g0, g1, g2, g3)" by (cases "parse_ip w g")
  obtain l0 l1 l2 l3 where pl: "parse_ip w na = (l0, l1, l2, l3)" by (cases "parse_ip w na")
  show ?case
    using 2 pg pl by (simp add: registry_valid_scan_subnet)
qed

lemma registry_valid_multi_trace:
  "registry_valid st \<Longrightarrow> registry_valid (multi_trace w na st)"
proof -
  assume v: "registry_valid st"
  obtain r1 gw1 st1 where t1: "traceroute_discover w ''8.8.8.8'' st = ((r1, gw1), st1)"
    by (cases "traceroute_discover w ''8.8.8.8'' st") auto
  obtain r2 gw2 st2 where t2: "traceroute_discover w ''1.1.1.1'' st1 = ((r2, gw2), st2)"
    by (cases "traceroute_discover w ''1.1.1.1'' st1") auto
  have v1: "registry_valid st1" using registry_valid_traceroute [of w "''8.8.8.8''" st] t1 v by simp
  have v2: "registry_valid st2" using registry_valid_traceroute [of w "''1.1.1.1''" st1] t2 v1 by simp
  show ?thesis using t1 t2 v1 v2
    by (simp add: multi_trace_def registry_valid_multi_gateways)
qed

lemma registry_valid_discover_multi_subnet: "registry_valid (snd (discover_multi_subnet w st))"
proof (cases "local_info w")
  case None
  then show ?thesis by (simp add: discover_multi_subnet_def)
next
  case (Some t)
  obtain a b c where t: "t = (a, b, c)" by (cases t)
  show ?thesis using Some t
    by (simp add: discover_multi_subnet_def Let_def registry_valid_multi_trace
        registry_valid_scan_subnet)
qed

lemma registry_valid_discover_custom_subnet:
  "registry_valid (snd (discover_custom_subnet w cidr st))"
  unfolding discover_custom_subnet_def Let_def
  by (simp add: registry_valid_scan_subnet split: prod.splits)

lemma is_digit_set: "is_digit c = (c \<in> set ''0123456789'')"
  by (cases c) (simp add: is_digit_def)

lemma already_found_iff: "already_found hs ip = (ip \<in> set (map ip_address hs))"
  by (induction hs) auto

lemma already_found_valid:
  "registry_valid st \<Longrightarrow> already_found (hosts st) ip \<Longrightarrow> validate_ip_string (Some ip) = 1"
  by (auto simp: registry_valid_def already_found_iff list_all_iff)

lemma in_list_iff: "in_list xs ip = (ip \<in> set xs)"
  by (induction xs) auto

text \<open>
  C10.  \<^verbatim>\<open>validate_ip_string\<close> returns 1 exactly for the non-empty strings made of
  decimal digits and dots, and 0 otherwise (also for NULL).  It looks at no dotted-quad
  structure: \<^verbatim>\<open>999.999.999.999\<close>, \<^verbatim>\<open>1..2\<close> and \<^verbatim>\<open>....\<close> are valid, and for every
  valid string the prober and the router query functions go on to issue their command.
\<close>

theorem validate_ip_string_charset_only:
  "validate_ip_string p =
     (if \<exists>s. p = Some s \<and> s \<noteq> [] \<and> list_all (\<lambda>c. c \<in> set ''0123456789'' \<or> c = CHR ''.'') s
      then 1 else 0)
   \<and> validate_ip_string (Some ''999.999.999.999'') = 1
   \<and> validate_ip_string (Some ''1..2'') = 1
   \<and> validate_ip_string (Some ''....'') = 1
   \<and> (validate_ip_string (Some ip) = 1 \<longrightarrow>
        cmds (snd (ping_host_system w ip st)) =
          cmds st @ [take 255 (''ping -c 1 -W 1 '' @ ip @ '' 2>/dev/null'')])
   \<and> (validate_ip_string (Some ip) = 1 \<and> validate_community_string (Some c) = 1 \<longrightarrow>
        cmds (snd (try_snmp_community w ip c st)) =
          cmds st @ [snmpwalk_command c ip ''1.3.6.1.2.1.4.22.1.3'']
        \<and> cmds (snd (discover_nexthop_routers w ip c m st)) =
          cmds st @ [snmpwalk_command c ip ''1.3.6.1.2.1.4.21.1.7'']
        \<and> cmds (snd (discover_router_interfaces w ip c m st)) =
          cmds st @ [snmpwalk_command c ip ''1.3.6.1.2.1.4.20.1.1'']
        \<and> cmds (snd (discover_snmp_arp w ip c st)) =
          cmds st @ [take 511 (''snmpwalk -v2c -c '' @ c @ '' '' @ ip @
                               '' 1.3.6.1.2.1.4.22.1.3 2>/dev/null'')])"
proof -
  have a: "validate_ip_string p =
     (if \<exists>s. p = Some s \<and> s \<noteq> [] \<and> list_all (\<lambda>c. c \<in> set ''0123456789'' \<or> c = CHR ''.'') s
      then 1 else 0)"
  proof (cases p)
    case None
    then show ?thesis by (simp add: validate_ip_string_def)
  next
    case (Some s)
    have "list_all (\<lambda>c. is_digit c \<or> c = CHR ''.'') s =
          list_all (\<lambda>c. c \<in> set ''0123456789'' \<or> c = CHR ''.'') s"
      by (simp only: is_digit_set)
    then show ?thesis using Some by (simp only: validate_ip_string_Some) simp
  qed
  have b: "validate_community_string (Some c) = 1 \<Longrightarrow> community_chars c = 1"
    by (simp add: validate_community_string_def split: if_splits)
  show ?thesis
    using a ex1 ex2 ex3 ping_accepts [of ip w st] try_snmp_accepts [of ip c w st]
      nexthop_accepts [of ip c w m st] interfaces_accepts [of ip c w m st]
      snmp_arp_accepts [of ip c w st] b
    by blast
qed

theorem validate_ip_string_charset_only_witness:
  "validate_ip_string (Some ''1..2'') = 1
   \<and> validate_community_string (Some ''public'') = 1
   \<and> cmds (snd (ping_host_system silent_world ''1..2'' initial_state)) =
        [''ping -c 1 -W 1 1..2 2>/dev/null'']
   \<and> cmds (snd (discover_router_interfaces silent_world ''1..2'' ''public'' 30 initial_state)) =
        [''timeout 3 snmpwalk -v2c -c public 1..2 1.3.6.1.2.1.4.20.1.1 2>/dev/null'']"
proof -
  have c: "validate_community_string (Some ''public'') = 1"
    by (simp add: validate_community_string_def community_char_def is_alpha_lower_def
        is_alpha_upper_def is_digit_def)
  have i: "cmds initial_state = []" by (simp add: initial_state_def)
  show ?thesis
    using validate_ip_string_charset_only
      [of "Some ''1..2''" "''1..2''" silent_world initial_state "''public''" 30] c i
    by (simp add: snmpwalk_command_def)
qed

text \<open>
  C5.  An address string with a character other than a digit or a dot is refused by
  \<^verbatim>\<open>ping_host_system\<close>, \<^verbatim>\<open>try_snmp_community\<close>, \<^verbatim>\<open>discover_nexthop_routers\<close>,
  \<^verbatim>\<open>discover_router_interfaces\<close> and \<^verbatim>\<open>discover_snmp_arp\<close> with their failure value
  and with the state untouched, so no command is issued and nothing is stored.  Every entry
  point leaves a registry of validated addresses only, so such a string is never among
  them.
\<close>

theorem malformed_address_rejected:
  assumes "\<not> list_all (\<lambda>c. c \<in> set ''0123456789'' \<or> c = CHR ''.'') ip"
  shows "ping_host_system w ip st = (- 1, st)
   \<and> try_snmp_community w ip c st = (0, st)
   \<and> discover_nexthop_routers w ip c m st = ([], st)
   \<and> discover_router_interfaces w ip c m st = ([], st)
   \<and> discover_snmp_arp w ip c st = (- 1, st)
   \<and> (registry_valid st \<longrightarrow> \<not> already_found (hosts st) ip)
   \<and> (registry_valid st \<longrightarrow>
        registry_valid (snd (scan_subnet w a n st))
        \<and> registry_valid (snd (try_snmp_community w r c st))
        \<and> registry_valid (snd (discover_snmp_arp w r c st)))
   \<and> registry_valid (snd (discover_network w st))
   \<and> registry_valid (snd (discover_network_quick w st))
   \<and> registry_valid (snd (discover_multi_subnet w st))
   \<and> registry_valid (snd (discover_custom_subnet w cidr st))
   \<and> registry_valid (snd (discover_arp_cache w st))
   \<and> registry_valid (snd (discover_netstat w st))
   \<and> registry_valid (snd (discover_efficient w st))
   \<and> registry_valid (snd (discover_automatic w st))"
proof -
  have bad: "\<not> list_all (\<lambda>c. is_digit c \<or> c = CHR ''.'') ip"
    unfolding is_digit_set by (rule assms)
  then have inv: "validate_ip_string (Some ip) \<noteq> 1"
    by (simp add: validate_ip_string_Some)
  have notin: "registry_valid st \<longrightarrow> \<not> already_found (hosts st) ip"
    using inv already_found_valid by blast
  show ?thesis
    using rejects [OF bad] notin registry_valid_scan_subnet registry_valid_try_snmp
      registry_valid_discover_snmp_arp registry_valid_discover_network
      registry_valid_discover_network_quick registry_valid_discover_multi_subnet
      registry_valid_discover_custom_subnet registry_valid_discover_arp_cache
      registry_valid_discover_netstat registry_valid_discover_efficient
      registry_valid_discover_automatic
    by (intro conjI impI) blast+
qed

theorem malformed_address_rejected_witness:
  "\<not> list_all (\<lambda>c. c \<in> set ''0123456789'' \<or> c = CHR ''.'') ''10.0.0.1;id''
   \<and> registry_valid initial_state
   \<and> ping_host_system silent_world ''10.0.0.1;id'' initial_state = (- 1, initial_state)
   \<and> discover_nexthop_routers silent_world ''10.0.0.1;id'' ''public'' 30 initial_state =
        ([], initial_state)
   \<and> \<not> already_found (hosts (snd (discover_automatic silent_world initial_state)))
          ''10.0.0.1;id''"
proof -
  have h: "\<not> list_all (\<lambda>c. c \<in> set ''0123456789'' \<or> c = CHR ''.'') ''10.0.0.1;id''"
    by simp
  have v: "registry_valid initial_state" by (simp add: registry_valid_def initial_state_def)
  have "registry_valid (snd (discover_automatic silent_world initial_state))"
    using malformed_address_rejected [OF h] by blast
  moreover have "registry_valid (snd (discover_automatic silent_world initial_state)) \<longrightarrow>
      \<not> already_found (hosts (snd (discover_automatic silent_world initial_state)))
          ''10.0.0.1;id''"
    using malformed_address_rejected
      [OF h, of silent_world "snd (discover_automatic silent_world initial_state)"]
    by blast
  ultimately show ?thesis
    using h v malformed_address_rejected [OF h, of silent_world initial_state "''public''" 30]
    by blast
qed

section \<open>The subnet enumerator: what it probes and prints\<close>

lemma to_int32_id: "- (2 ^ 31) \<le> v \<Longrightarrow> v < 2 ^ 31 \<Longrightarrow> to_int32 v = v"
  by (simp add: to_int32_def signed_of_int signed_take_bit_int_eq_self)

lemma digit_char_props: "d < 10 \<Longrightarrow> is_digit (digit_char d) \<and> (of_char (digit_char d) :: nat) - 48 = d"
  by (simp add: is_digit_def digit_char_def)

lemma digit_char_not_space: "d < 10 \<Longrightarrow> \<not> isspace (digit_char d)"
  by (simp add: isspace_def digit_char_def)

lemma digit_char_not_sign: "d < 10 \<Longrightarrow> digit_char d \<noteq> CHR ''-'' \<and> digit_char d \<noteq> CHR ''+'' \<and> digit_char d \<noteq> CHR ''.''"
proof -
  assume "d < 10"
  then have "(of_char (digit_char d) :: nat) = 48 + d" by (simp add: digit_char_def)
  then show ?thesis by (auto simp del: of_char_of)
qed

lemma show_nat_digits: "list_all is_digit (show_nat n) \<and> show_nat n \<noteq> []"
proof (induction n rule: show_nat.induct)
  case (1 n)
  show ?case
  proof (cases "n < 10")
    case True
    then show ?thesis by (subst (1 2) show_nat.simps) (simp add: digit_char_props)
  next
    case False
    then show ?thesis using 1 by (subst (1 2) show_nat.simps) (simp add: digit_char_props)
  qed
qed

lemma digits_val_append: "digits_val acc (xs @ ys) = digits_val (digits_val acc xs) ys"
  by (induction xs arbitrary: acc) auto

lemma digits_val_show_nat: "digits_val 0 (show_nat n) = n"
proof (induction n rule: show_nat.induct)
  case (1 n)
  show ?case
  proof (cases "n < 10")
    case True
    then show ?thesis by (subst show_nat.simps) (simp add: digit_char_props)
  next
    case False
    then show ?thesis using 1
      by (subst show_nat.simps) (simp add: digits_val_append digit_char_props)
  qed
qed

lemma show_nat_length: "n < 1000 \<Longrightarrow> length (show_nat n) \<le> 3"
proof -
  assume n: "n < 1000"
  have one: "\<And>k. k < 10 \<Longrightarrow> length (show_nat k) = 1" by (subst show_nat.simps) simp
  have two: "\<And>k. k < 100 \<Longrightarrow> length (show_nat k) \<le> 2"
  proof -
    fix k :: nat assume "k < 100"
    then have "k div 10 < 10" by simp
    then show "length (show_nat k) \<le> 2" using one [of "k div 10"]
      by (subst show_nat.simps) simp
  qed
  have "n div 10 < 100" using n by simp
  then show ?thesis using two [of "n div 10"] by (subst show_nat.simps) simp
qed

lemma hd_show_nat: "\<exists>d r. d < 10 \<and> show_nat n = digit_char d # r"
proof (induction n rule: show_nat.induct)
  case (1 n)
  show ?case
  proof (cases "n < 10")
    case True
    then show ?thesis by (subst show_nat.simps) auto
  next
    case False
    then obtain d r where "d < 10" "show_nat (n div 10) = digit_char d # r" using 1 by blast
    then show ?thesis using False by (subst show_nat.simps) auto
  qed
qed

lemma scan_dec_show_nat:
  assumes "n < 2 ^ 31" and "r = [] \<or> \<not> is_digit (hd r)"
  shows "scan_dec (show_nat n @ r) = Some (int n, r)"
proof -
  obtain d t where d: "d < 10" and s: "show_nat n = digit_char d # t" using hd_show_nat by blast
  have dg: "list_all is_digit (show_nat n)" using show_nat_digits by simp
  have tw: "takeWhile is_digit (show_nat n @ r) = show_nat n"
    using dg assms(2) by (cases r) (auto simp: list_all_iff takeWhile_append2 intro: takeWhile_eq_all_conv [THEN iffD2])
  have dw: "dropWhile is_digit (show_nat n @ r) = r"
    using dg assms(2) by (cases r) (auto simp: list_all_iff dropWhile_append2 intro: dropWhile_eq_Nil_conv [THEN iffD2])
  have sp: "dropWhile isspace (show_nat n @ r) = show_nat n @ r"
    using s d by (simp add: digit_char_not_space)
  have hd: "hd (show_nat n @ r) \<noteq> CHR ''-''" "hd (show_nat n @ r) \<noteq> CHR ''+''"
    using s d digit_char_not_sign by auto
  have ne: "show_nat n \<noteq> []" using s by simp
  have v: "to_int32 (strtol_val False (show_nat n)) = int n"
    using assms(1) by (simp add: strtol_val_def digits_val_show_nat long_max_def to_int32_id)
  show ?thesis
    using sp hd tw dw ne v by (simp add: Let_def)
qed

lemma dot_not_digit: "\<not> is_digit (CHR ''.'')"
  by (simp add: is_digit_def)

lemma sscanf_dotted:
  assumes "a < 2 ^ 31" "b < 2 ^ 31" "c < 2 ^ 31" "d < 2 ^ 31"
  shows "sscanf ip_format (dotted a b c d) = [SInt (int a), SInt (int b), SInt (int c), SInt (int d)]"
proof -
  have 1: "\<And>n r. n < 2 ^ 31 \<Longrightarrow> scan_dec (show_nat n @ CHR ''.'' # r) = Some (int n, CHR ''.'' # r)"
    by (rule scan_dec_show_nat) (simp_all add: dot_not_digit)
  have 2: "scan_dec (show_nat d) = Some (int d, [])"
    using scan_dec_show_nat [of d "[]"] assms(4) by simp
  show ?thesis
    unfolding dotted_def ip_format_def
    using 1 [OF assms(1)] 1 [OF assms(2)] 1 [OF assms(3)] 2
    by (simp del: scan_dec.simps)
qed

lemma snprintf_quad_dotted:
  assumes "0 \<le> a" "a < 1000" "0 \<le> b" "b < 1000" "0 \<le> c" "c < 1000" "0 \<le> d" "d < 1000"
  shows "snprintf_quad MAX_IP_LEN a b c d = dotted (nat a) (nat b) (nat c) (nat d)"
proof -
  have l: "\<And>x. 0 \<le> x \<Longrightarrow> x < 1000 \<Longrightarrow> length (show_nat (nat x)) \<le> 3"
    by (rule show_nat_length) simp
  have "length (dotted (nat a) (nat b) (nat c) (nat d)) \<le> 15"
    using l [OF assms(1,2)] l [OF assms(3,4)] l [OF assms(5,6)] l [OF assms(7,8)]
    by (simp add: dotted_def)
  then show ?thesis using assms
    by (simp add: snprintf_quad_def show_int_def MAX_IP_LEN_def dotted_def)
qed

lemma parse_ip_quad:
  assumes "0 \<le> a" "a < 1000" "0 \<le> b" "b < 1000" "0 \<le> c" "c < 1000" "0 \<le> d" "d < 1000"
  shows "parse_ip w (snprintf_quad MAX_IP_LEN a b c d) = (a, b, c, d)"
proof -
  have "sscanf ip_format (dotted (nat a) (nat b) (nat c) (nat d)) =
        [SInt (int (nat a)), SInt (int (nat b)), SInt (int (nat c)), SInt (int (nat d))]"
    by (rule sscanf_dotted) (use assms in simp_all)
  then show ?thesis using assms
    by (simp add: parse_ip_def snprintf_quad_dotted split: prod.splits)
qed

lemma validate_dotted: "validate_ip_string (Some (dotted a b c d)) = 1"
proof -
  have "\<And>n. list_all (\<lambda>c. is_digit c \<or> c = CHR ''.'') (show_nat n)"
    using show_nat_digits by (auto simp: list_all_iff)
  then show ?thesis using show_nat_digits [of a]
    by (simp add: validate_ip_string_Some dotted_def)
qed

lemma validate_quad:
  assumes "0 \<le> a" "a < 1000" "0 \<le> b" "b < 1000" "0 \<le> c" "c < 1000" "0 \<le> d" "d < 1000"
  shows "validate_ip_string (Some (snprintf_quad MAX_IP_LEN a b c d)) = 1"
  using assms by (simp add: snprintf_quad_dotted validate_dotted)

lemma sdiv_nonneg: "0 \<le> (a::int) \<Longrightarrow> 0 < b \<Longrightarrow> a sdiv b = a div b"
  by (simp add: signed_divide_int_def sgn_if)

lemma smod_nonneg: "0 \<le> (a::int) \<Longrightarrow> 0 < b \<Longrightarrow> a smod b = a mod b"
  by (simp add: signed_modulo_int_def sgn_if)

lemma scan_target_quad:
  "1 \<le> i \<Longrightarrow> i \<le> 254 \<Longrightarrow> scan_target (a, b, c, d) hb i = snprintf_quad MAX_IP_LEN a b c i"
  by (simp add: scan_target_def sdiv_nonneg smod_nonneg)

lemma printed_store_host [simp]: "printed (store_host ip rt st) = printed st"
  by (simp add: store_host_def)

lemma printed_ping [simp]: "printed (snd (ping_host_system w ip st)) = printed st"
  by (simp add: ping_host_system_def run_popen_def split: option.splits)

lemma printed_printf [simp]: "printed (printf e st) = printed st @ [e]"
  by (simp add: printf_def)

lemma discovered_count_printf [simp]: "discovered_count (printf e st) = discovered_count st"
  by (simp add: discovered_count_def)

lemma discovered_count_store [simp]:
  "discovered_count (store_host ip rt st) = discovered_count st + 1"
  by (simp add: discovered_count_def store_host_def)

lemma discovered_count_ping [simp]:
  "discovered_count (snd (ping_host_system w ip st)) = discovered_count st"
  by (simp add: discovered_count_def)

lemma scan_body_facts:
  assumes "validate_ip_string (Some (scan_target net hb i)) = 1" and "0 < i"
  shows "cmds (snd (scan_subnet_body w net hb mx i acc)) =
           cmds (snd acc) @ [ping_command (scan_target net hb i)]"
    and "printed (snd (scan_subnet_body w net hb mx i acc)) =
           printed (snd acc) @ (if i mod 50 = 0 then [ScanProgress i mx] else [])"
    and "discovered_count (snd (scan_subnet_body w net hb mx i acc)) \<le> discovered_count (snd acc) + 1"
proof -
  obtain hf st where acc: "acc = (hf, st)" by (cases acc)
  obtain rt st1 where p: "ping_host_system w (scan_target net hb i) st = (rt, st1)"
    by (cases "ping_host_system w (scan_target net hb i) st")
  have c1: "cmds st1 = cmds st @ [ping_command (scan_target net hb i)]"
    using ping_accepts [OF assms(1), of w st] p by (simp add: ping_command_def)
  have p1: "printed st1 = printed st" using printed_ping [of w "scan_target net hb i" st] p by simp
  have d1: "discovered_count st1 = discovered_count st"
    using discovered_count_ping [of w "scan_target net hb i" st] p by simp
  have m: "i smod 50 = i mod 50" using assms(2) by (simp add: smod_nonneg)
  show "cmds (snd (scan_subnet_body w net hb mx i acc)) =
           cmds (snd acc) @ [ping_command (scan_target net hb i)]"
    using acc p c1 by (simp add: scan_subnet_body_def)
  show "printed (snd (scan_subnet_body w net hb mx i acc)) =
           printed (snd acc) @ (if i mod 50 = 0 then [ScanProgress i mx] else [])"
    using acc p p1 m by (simp add: scan_subnet_body_def)
  show "discovered_count (snd (scan_subnet_body w net hb mx i acc)) \<le> discovered_count (snd acc) + 1"
    using acc p d1 by (simp add: scan_subnet_body_def)
qed

lemma scan_loop_trace:
  assumes "\<And>j. i \<le> j \<Longrightarrow> j \<le> mx \<Longrightarrow> validate_ip_string (Some (scan_target net hb j)) = 1"
    and "0 < i" and "i \<le> mx + 1"
  shows "\<exists>k. i - 1 \<le> k \<and> k \<le> mx
      \<and> cmds (snd (scan_subnet_loop w net hb mx i acc)) =
          cmds (snd acc) @ map (\<lambda>j. ping_command (scan_target net hb j)) [i..k]
      \<and> printed (snd (scan_subnet_loop w net hb mx i acc)) =
          printed (snd acc) @ scan_progress mx i k
      \<and> (int (discovered_count (snd acc)) + (mx - i + 1) \<le> int MAX_DISCOVERED_HOSTS \<longrightarrow> k = mx)
      \<and> (k < mx \<longrightarrow> MAX_DISCOVERED_HOSTS \<le> discovered_count (snd (scan_subnet_loop w net hb mx i acc)))"
  using assms
proof (induction w net hb mx i acc rule: scan_subnet_loop.induct)
  case (1 w net hb mx i acc)
  show ?case
  proof (cases "i \<le> mx \<and> discovered_count (snd acc) < MAX_DISCOVERED_HOSTS")
    case False
    have eq: "scan_subnet_loop w net hb mx i acc = acc"
      using False by (subst scan_subnet_loop.simps) (simp only: if_False simp_thms)
    show ?thesis
      apply (rule exI [of _ "i - 1"])
      using False "1.prems"(3) by (auto simp: eq scan_progress_def)
  next
    case True
    let ?b = "scan_subnet_body w net hb mx i acc"
    have eq: "scan_subnet_loop w net hb mx i acc = scan_subnet_loop w net hb mx (i + 1) ?b"
      using True by (subst scan_subnet_loop.simps) (simp only: if_True simp_thms)
    have vi: "validate_ip_string (Some (scan_target net hb i)) = 1"
      using "1.prems"(1) [of i] True by simp
    note bf = scan_body_facts [OF vi "1.prems"(2), of w mx acc]
    have "\<exists>k. (i + 1) - 1 \<le> k \<and> k \<le> mx
      \<and> cmds (snd (scan_subnet_loop w net hb mx (i + 1) ?b)) =
          cmds (snd ?b) @ map (\<lambda>j. ping_command (scan_target net hb j)) [i + 1..k]
      \<and> printed (snd (scan_subnet_loop w net hb mx (i + 1) ?b)) =
          printed (snd ?b) @ scan_progress mx (i + 1) k
      \<and> (int (discovered_count (snd ?b)) + (mx - (i + 1) + 1) \<le> int MAX_DISCOVERED_HOSTS \<longrightarrow> k = mx)
      \<and> (k < mx \<longrightarrow> MAX_DISCOVERED_HOSTS \<le> discovered_count (snd (scan_subnet_loop w net hb mx (i + 1) ?b)))"
      by (rule "1.IH") (use True "1.prems" in auto)
    then obtain k where k: "i \<le> k" "k \<le> mx"
      "cmds (snd (scan_subnet_loop w net hb mx (i + 1) ?b)) =
          cmds (snd ?b) @ map (\<lambda>j. ping_command (scan_target net hb j)) [i + 1..k]"
      "printed (snd (scan_subnet_loop w net hb mx (i + 1) ?b)) =
          printed (snd ?b) @ scan_progress mx (i + 1) k"
      "int (discovered_count (snd ?b)) + (mx - (i + 1) + 1) \<le> int MAX_DISCOVERED_HOSTS \<longrightarrow> k = mx"
      "k < mx \<longrightarrow> MAX_DISCOVERED_HOSTS \<le> discovered_count (snd (scan_subnet_loop w net hb mx (i + 1) ?b))"
      by auto
    have up: "[i..k] = i # [i + 1..k]" using k(1) by (simp add: upto_rec1)
    have c: "cmds (snd (scan_subnet_loop w net hb mx i acc)) =
          cmds (snd acc) @ map (\<lambda>j. ping_command (scan_target net hb j)) [i..k]"
      using k(3) bf(1) by (simp add: eq up)
    have p: "printed (snd (scan_subnet_loop w net hb mx i acc)) =
          printed (snd acc) @ scan_progress mx i k"
      using k(4) bf(2) by (simp add: eq up scan_progress_def)
    have r: "int (discovered_count (snd acc)) + (mx - i + 1) \<le> int MAX_DISCOVERED_HOSTS \<longrightarrow> k = mx"
      using k(5) bf(3) by auto
    show ?thesis
      apply (rule exI [of _ k])
      using k(1,2,6) c p r by (simp add: eq)
  qed
qed

lemma hosts_in_subnet_eq:
  assumes "0 \<le> hb" "hb \<le> 30"
  shows "hosts_in_subnet hb = 2 ^ nat hb - 2"
proof -
  define x where "x = (2::int) ^ nat hb"
  have "nat hb \<le> 30" using assms by simp
  then have "(2::int) ^ nat hb \<le> 2 ^ 30" by (rule power_increasing) simp
  then have le: "x \<le> 1073741824" by (simp add: x_def)
  have ge: "1 \<le> x" by (simp add: x_def)
  have m: "hb mod 32 = hb" using assms by simp
  have s: "shl_one hb = x"
    unfolding shl_one_def m x_def [symmetric] by (rule to_int32_id) (use le ge in simp_all)
  show ?thesis
    unfolding hosts_in_subnet_def s x_def [symmetric]
    by (rule to_int32_id) (use le ge in simp_all)
qed

lemma addr_value_octets:
  assumes "0 \<le> v" "v < 4294967296"
  shows "addr_value (value_octets v) = v"
proof -
  have a: "v div 16777216 mod 256 = v div 16777216"
    using assms by (simp add: div_less_iff_less_mult)
  have b: "v div 65536 mod 256 = v div 65536 - 256 * (v div 16777216)"
  proof -
    have "v div 16777216 = v div 65536 div 256" by (simp add: div_mult2_eq [symmetric])
    then show ?thesis by (simp add: minus_mult_div_eq_mod)
  qed
  have c: "v div 256 mod 256 = v div 256 - 256 * (v div 65536)"
  proof -
    have "v div 65536 = v div 256 div 256" by (simp add: div_mult2_eq [symmetric])
    then show ?thesis by (simp add: minus_mult_div_eq_mod)
  qed
  have d: "v mod 256 = v - 256 * (v div 256)" by (simp add: minus_mult_div_eq_mod)
  show ?thesis
    unfolding addr_value_def value_octets_def prod.case a b c d by (simp add: algebra_simps)
qed

lemma value_octets_range:
  assumes "value_octets v = (e, f, g, h)"
  shows "0 \<le> e \<and> e < 1000 \<and> 0 \<le> f \<and> f < 1000 \<and> 0 \<le> g \<and> g < 1000 \<and> 0 \<le> h \<and> h < 1000"
proof -
  have r: "\<And>x::int. 0 \<le> x mod 256 \<and> x mod 256 < 1000"
  proof -
    fix x :: int
    have "x mod 256 < 256" by simp
    then show "0 \<le> x mod 256 \<and> x mod 256 < 1000" by simp
  qed
  have "e = v div 16777216 mod 256" "f = v div 65536 mod 256" "g = v div 256 mod 256"
    "h = v mod 256" using assms by (simp_all add: value_octets_def)
  then show ?thesis using r by blast
qed

lemma addr_value_bound:
  assumes "0 \<le> a" "a \<le> 255" "0 \<le> b" "b \<le> 255" "0 \<le> c" "c \<le> 255" "0 \<le> d" "d \<le> 255"
  shows "0 \<le> addr_value (a, b, c, d) \<and> addr_value (a, b, c, d) < 4294967296"
proof -
  have "(a * 256 + b) \<le> 65535" "0 \<le> a * 256 + b" using assms by simp_all
  then have "(a * 256 + b) * 256 + c \<le> 16777215" "0 \<le> (a * 256 + b) * 256 + c"
    using assms by simp_all
  then show ?thesis using assms by (simp add: addr_value_def)
qed

lemma aligned_last_octet:
  assumes al: "addr_value (a, b, c, d) mod 2 ^ hb = 0"
    and m: "m \<le> hb" "m \<le> 8"
  shows "d mod 2 ^ m = 0"
proof -
  have d1: "(2::int) ^ m dvd 2 ^ hb" using m(1) by (rule le_imp_power_dvd)
  have d2: "(2::int) ^ m dvd 2 ^ 8" using m(2) by (rule le_imp_power_dvd)
  then have d3: "(2::int) ^ m dvd 256" by simp
  have "addr_value (a, b, c, d) mod 2 ^ m = 0"
    using al d1 by (metis mod_mod_cancel mod_0)
  moreover have "addr_value (a, b, c, d) = 256 * ((a * 256 + b) * 256 + c) + d"
    by (simp add: addr_value_def)
  moreover have "(256 * ((a * 256 + b) * 256 + c) + d) mod 2 ^ m = d mod 2 ^ m"
    using d3 by (metis dvd_mult2 mod_add_left_eq dvd_eq_mod_eq_0 add_0)
  ultimately show ?thesis by simp
qed

lemma candidate_not_network:
  assumes al: "addr_value (a, b, c, d) mod 2 ^ hb = 0"
    and i: "1 \<le> i" "i \<le> min (2 ^ hb - 2) 254"
  shows "i \<noteq> d"
proof
  assume e: "i = d"
  define m where "m = min hb 8"
  have dm: "d mod 2 ^ m = 0" using al by (rule aligned_last_octet) (simp_all add: m_def)
  have "i < 2 ^ m"
  proof (cases "hb \<le> 8")
    case True
    then show ?thesis using i(2) by (simp add: m_def min_def split: if_splits)
  next
    case False
    then show ?thesis using i(2) by (simp add: m_def min_def split: if_splits)
  qed
  then have "i mod 2 ^ m = i" using i(1) by simp
  with dm e i(1) show False by simp
qed

lemma broadcast_value_bound:
  assumes al: "v mod 2 ^ hb = (0::int)" and v: "0 \<le> v" "v < 2 ^ 32" and hb: "hb \<le> 32"
  shows "0 \<le> v + 2 ^ hb - 1 \<and> v + 2 ^ hb - 1 < 4294967296"
proof -
  obtain q where q: "v = 2 ^ hb * q" using al by (auto simp: mod_eq_0_iff_dvd)
  have "(2::int) ^ 32 = 2 ^ hb * 2 ^ (32 - hb)" using hb by (simp add: power_add [symmetric])
  then have "2 ^ hb * q < 2 ^ hb * (2::int) ^ (32 - hb)" using v(2) q by simp
  then have "q < 2 ^ (32 - hb)" by simp
  then have "q + 1 \<le> 2 ^ (32 - hb)" by simp
  then have "2 ^ hb * (q + 1) \<le> 2 ^ hb * (2::int) ^ (32 - hb)" by (rule mult_left_mono) simp
  then have le: "v + 2 ^ hb \<le> 4294967296"
    using q \<open>(2::int) ^ 32 = 2 ^ hb * 2 ^ (32 - hb)\<close> by (simp add: algebra_simps)
  define x where "x = (2::int) ^ hb"
  have "1 \<le> x" by (simp add: x_def)
  then show ?thesis using v(1) le unfolding x_def [symmetric] by linarith
qed

lemma candidate_count_range:
  assumes "16 \<le> p" "p \<le> 30"
  shows "2 \<le> candidate_count p \<and> candidate_count p \<le> 254
         \<and> candidate_count p \<le> 2 ^ nat (32 - p) - 2"
proof -
  define x where "x = (2::int) ^ nat (32 - p)"
  have "2 \<le> nat (32 - p)" using assms by simp
  then have "(2::int) ^ 2 \<le> 2 ^ nat (32 - p)" by (rule power_increasing) simp
  then have "4 \<le> x" by (simp add: x_def)
  then show ?thesis unfolding candidate_count_def x_def [symmetric] by simp
qed

lemma scan_subnet_trace:
  assumes o: "0 \<le> a" "a \<le> 255" "0 \<le> b" "b \<le> 255" "0 \<le> c" "c \<le> 255" "0 \<le> d" "d \<le> 255"
    and p: "16 \<le> p" "p \<le> 30"
  shows "\<exists>k. 0 \<le> k \<and> k \<le> candidate_count p
      \<and> cmds (snd (scan_subnet w (dotted_quad (a, b, c, d)) p st)) =
          cmds st @ map (\<lambda>i. ping_command (dotted_quad (a, b, c, i))) [1..k]
      \<and> printed (snd (scan_subnet w (dotted_quad (a, b, c, d)) p st)) =
          printed st @ scan_progress (candidate_count p) 1 k
      \<and> (int (discovered_count st) + candidate_count p \<le> int MAX_DISCOVERED_HOSTS \<longrightarrow>
           k = candidate_count p)
      \<and> (k < candidate_count p \<longrightarrow>
           MAX_DISCOVERED_HOSTS \<le> discovered_count (snd (scan_subnet w (dotted_quad (a, b, c, d)) p st)))"
proof -
  let ?N = "candidate_count p"
  let ?hb = "32 - p"
  note cr = candidate_count_range [OF p]
  have pn: "parse_ip w (dotted_quad (a, b, c, d)) = (a, b, c, d)"
    unfolding dotted_quad_def prod.case by (rule parse_ip_quad) (use o in simp_all)
  have hs: "hosts_in_subnet ?hb = 2 ^ nat ?hb - 2"
    by (rule hosts_in_subnet_eq) (use p in simp_all)
  have mn: "\<And>x::int. (if x > 254 then 254 else x) = min x 254" by simp
  have mh: "(if hosts_in_subnet ?hb > 254 then 254 else hosts_in_subnet ?hb) = ?N"
    unfolding hs candidate_count_def by (rule mn)
  have eq: "scan_subnet w (dotted_quad (a, b, c, d)) p st =
            scan_subnet_loop w (a, b, c, d) ?hb ?N 1 (0, st)"
  proof -
    have pos: "\<not> ?N \<le> 0" using cr by simp
    show ?thesis
      unfolding scan_subnet_def Let_def pn mh by (simp only: pos if_False)
  qed
  have tq: "\<And>j. 1 \<le> j \<Longrightarrow> j \<le> ?N \<Longrightarrow>
      scan_target (a, b, c, d) ?hb j = dotted_quad (a, b, c, j)"
    unfolding dotted_quad_def prod.case by (rule scan_target_quad) (use cr in simp_all)
  have vq: "\<And>j. 1 \<le> j \<Longrightarrow> j \<le> ?N \<Longrightarrow>
      validate_ip_string (Some (scan_target (a, b, c, d) ?hb j)) = 1"
  proof -
    fix j assume j: "1 \<le> j" "j \<le> ?N"
    have "validate_ip_string (Some (snprintf_quad MAX_IP_LEN a b c j)) = 1"
      by (rule validate_quad) (use o j cr in simp_all)
    then show "validate_ip_string (Some (scan_target (a, b, c, d) ?hb j)) = 1"
      using tq [OF j] by (simp add: dotted_quad_def)
  qed
  have "\<exists>k. 1 - 1 \<le> k \<and> k \<le> ?N
      \<and> cmds (snd (scan_subnet_loop w (a, b, c, d) ?hb ?N 1 (0, st))) =
          cmds (snd (0::int, st)) @ map (\<lambda>j. ping_command (scan_target (a, b, c, d) ?hb j)) [1..k]
      \<and> printed (snd (scan_subnet_loop w (a, b, c, d) ?hb ?N 1 (0, st))) =
          printed (snd (0::int, st)) @ scan_progress ?N 1 k
      \<and> (int (discovered_count (snd (0::int, st))) + (?N - 1 + 1) \<le> int MAX_DISCOVERED_HOSTS \<longrightarrow> k = ?N)
      \<and> (k < ?N \<longrightarrow> MAX_DISCOVERED_HOSTS \<le> discovered_count (snd (scan_subnet_loop w (a, b, c, d) ?hb ?N 1 (0, st))))"
    by (rule scan_loop_trace) (use vq cr in simp_all)
  then obtain k where k: "0 \<le> k" "k \<le> ?N"
      "cmds (snd (scan_subnet_loop w (a, b, c, d) ?hb ?N 1 (0, st))) =
          cmds st @ map (\<lambda>j. ping_command (scan_target (a, b, c, d) ?hb j)) [1..k]"
      "printed (snd (scan_subnet_loop w (a, b, c, d) ?hb ?N 1 (0, st))) =
          printed st @ scan_progress ?N 1 k"
      "int (discovered_count st) + ?N \<le> int MAX_DISCOVERED_HOSTS \<longrightarrow> k = ?N"
      "k < ?N \<longrightarrow> MAX_DISCOVERED_HOSTS \<le> discovered_count (snd (scan_subnet_loop w (a, b, c, d) ?hb ?N 1 (0, st)))"
    by auto
  have mp: "map (\<lambda>j. ping_command (scan_target (a, b, c, d) ?hb j)) [1..k] =
            map (\<lambda>i. ping_command (dotted_quad (a, b, c, i))) [1..k]"
    by (rule map_cong) (use tq k(2) in auto)
  show ?thesis
    apply (rule exI [of _ k])
    using k mp by (simp add: eq)
qed

lemma candidate_not_network_string:
  assumes o: "0 \<le> a" "a \<le> 255" "0 \<le> b" "b \<le> 255" "0 \<le> c" "c \<le> 255" "0 \<le> d" "d \<le> 255"
    and al: "addr_value (a, b, c, d) mod 2 ^ hb = 0"
    and i: "1 \<le> i" "i \<le> 254" "i \<le> 2 ^ hb - 2"
  shows "dotted_quad (a, b, c, i) \<noteq> dotted_quad (a, b, c, d)"
proof
  assume e: "dotted_quad (a, b, c, i) = dotted_quad (a, b, c, d)"
  have pi: "parse_ip silent_world (dotted_quad (a, b, c, i)) = (a, b, c, i)"
    unfolding dotted_quad_def prod.case by (rule parse_ip_quad) (use o i(1) i(2) in simp_all)
  have pd: "parse_ip silent_world (dotted_quad (a, b, c, d)) = (a, b, c, d)"
    unfolding dotted_quad_def prod.case by (rule parse_ip_quad) (use o in simp_all)
  have im: "i \<le> min (2 ^ hb - 2) 254" using i(2) i(3) by (rule min.boundedI [rotated])
  have nd: "i \<noteq> d" by (rule candidate_not_network [OF al i(1) im])
  have "(a, b, c, i) = (a, b, c, d)" using pi pd unfolding e by (rule trans [OF sym])
  then show False using nd by simp
qed

lemma candidate_not_broadcast_string:
  assumes o: "0 \<le> a" "a \<le> 255" "0 \<le> b" "b \<le> 255" "0 \<le> c" "c \<le> 255" "0 \<le> d" "d \<le> 255"
    and al: "addr_value (a, b, c, d) mod 2 ^ hb = 0" and hb32: "hb \<le> 32"
    and i: "1 \<le> i" "i \<le> 254" "i \<le> 2 ^ hb - 2"
  shows "dotted_quad (a, b, c, i) \<noteq> dotted_quad (value_octets (addr_value (a, b, c, d) + 2 ^ hb - 1))"
proof
  let ?bv = "addr_value (a, b, c, d) + 2 ^ hb - 1"
  assume e: "dotted_quad (a, b, c, i) = dotted_quad (value_octets ?bv)"
  have pi: "parse_ip silent_world (dotted_quad (a, b, c, i)) = (a, b, c, i)"
    unfolding dotted_quad_def prod.case by (rule parse_ip_quad) (use o i(1) i(2) in simp_all)
  obtain e1 f g h where bo: "value_octets ?bv = (e1, f, g, h)" by (cases "value_octets ?bv")
  note av = addr_value_bound [OF o]
  have av1: "0 \<le> addr_value (a, b, c, d)" using av by (rule conjunct1)
  have av2: "addr_value (a, b, c, d) < 2 ^ 32" using av by simp
  have bb: "0 \<le> ?bv \<and> ?bv < 4294967296"
    by (rule broadcast_value_bound [OF al av1 av2 hb32])
  have rt: "addr_value (value_octets ?bv) = ?bv"
    by (rule addr_value_octets) (use bb in blast)+
  have pb: "parse_ip silent_world (dotted_quad (e1, f, g, h)) = (e1, f, g, h)"
    unfolding dotted_quad_def prod.case
    by (rule parse_ip_quad) (use value_octets_range [OF bo] in blast)+
  have "(a, b, c, i) = (e1, f, g, h)" using pi pb unfolding e bo by (rule trans [OF sym])
  then have "addr_value (a, b, c, i) = ?bv" using rt unfolding bo by (rule ssubst)
  moreover have "addr_value (a, b, c, i) = addr_value (a, b, c, d) + (i - d)"
    by (simp add: addr_value_def)
  ultimately have "i - d = 2 ^ hb - 1" by linarith
  then show False using i(3) o(7) by linarith
qed

lemma div_succ:
  assumes "0 < s" "0 \<le> (n::int)"
  shows "(n + 1) div s = n div s + (if (n + 1) mod s = 0 then 1 else 0)"
proof (cases "(n + 1) mod s = 0")
  case True
  then obtain q where q: "n + 1 = s * q" by (auto simp: mod_eq_0_iff_dvd)
  then have n: "n = s * (q - 1) + (s - 1)" by (simp add: algebra_simps)
  have "n div s = q - 1"
    unfolding n using assms(1) by (subst div_mult_self4) auto
  moreover have "(n + 1) div s = q" unfolding q using assms(1) by simp
  ultimately show ?thesis using True by simp
next
  case False
  have lt: "n mod s < s" and ge: "0 \<le> n mod s" using assms(1) by simp_all
  have "n mod s + 1 < s"
  proof (rule ccontr)
    assume "\<not> n mod s + 1 < s"
    then have e: "n mod s = s - 1" using lt by linarith
    have "(n + 1) mod s = (n mod s + 1) mod s" by (simp add: mod_add_left_eq)
    also have "\<dots> = 0" unfolding e by simp
    finally show False using False by simp
  qed
  then have t: "(n mod s + 1) div s = 0" using ge by (simp add: div_pos_pos_trivial)
  have "n + 1 = s * (n div s) + (n mod s + 1)" by simp
  then have "(n + 1) div s = (s * (n div s) + (n mod s + 1)) div s" by simp
  also have "\<dots> = n div s + (n mod s + 1) div s"
    using assms(1) by (subst div_mult_self4) auto
  finally have "(n + 1) div s = n div s" using t by simp
  then show ?thesis using False by simp
qed

lemma count_multiples:
  assumes "0 < s"
  shows "0 \<le> n \<Longrightarrow> length (filter (\<lambda>j. j mod s = 0) [1..n]) = nat (n div s)"
proof (induction n rule: int_ge_induct)
  case base
  then show ?case by simp
next
  case (step n)
  have u: "[1..n + 1] = [1..n] @ [n + 1]" using step.hyps by (simp add: upto_rec2)
  have d: "0 \<le> n div s" using step.hyps assms by (simp add: pos_imp_zdiv_nonneg_iff)
  show ?case
    unfolding u using step.IH div_succ [OF assms step.hyps] d by (simp add: nat_add_distrib)
qed

lemma show_nat_192: "show_nat 192 = ''192''" by code_simp
lemma show_nat_168: "show_nat 168 = ''168''" by code_simp
lemma show_nat_1: "show_nat (Suc 0) = ''1''" by code_simp
lemma show_nat_0: "show_nat 0 = ''0''" by code_simp

lemma dotted_quad_192_168_1:
  "0 \<le> i \<Longrightarrow> i \<le> 255 \<Longrightarrow> dotted_quad (192, 168, 1, i) = ''192.168.1.'' @ show_int i"
  unfolding dotted_quad_def prod.case
  by (subst snprintf_quad_dotted)
     (simp_all add: dotted_def show_nat_192 show_nat_168 show_nat_1 show_int_def)

lemma candidate_count_24: "candidate_count 24 = 254"
  by (simp add: candidate_count_def)
lemma upto_snoc: "i \<le> j + 1 \<Longrightarrow> [i..j + 1] = [i..j] @ [j + 1]"
  by (simp add: upto_rec2)

lemma scan_loop_fold:
  assumes "0 < i" and "i \<le> mx + 1"
  shows "\<exists>k. i - 1 \<le> k \<and> k \<le> mx
      \<and> scan_subnet_loop w net hb mx i acc =
          foldl (\<lambda>acc i. scan_subnet_body w net hb mx i acc) acc [i..k]
      \<and> (\<forall>j. i - 1 \<le> j \<and> j < k \<longrightarrow>
            discovered_count (snd (foldl (\<lambda>acc i. scan_subnet_body w net hb mx i acc) acc [i..j]))
              < MAX_DISCOVERED_HOSTS)
      \<and> (k < mx \<longrightarrow>
            MAX_DISCOVERED_HOSTS \<le>
              discovered_count (snd (foldl (\<lambda>acc i. scan_subnet_body w net hb mx i acc) acc [i..k])))"
  using assms
proof (induction w net hb mx i acc rule: scan_subnet_loop.induct)
  case (1 w net hb mx i acc)
  let ?f = "\<lambda>acc i. scan_subnet_body w net hb mx i acc"
  show ?case
  proof (cases "i \<le> mx \<and> discovered_count (snd acc) < MAX_DISCOVERED_HOSTS")
    case False
    have eq: "scan_subnet_loop w net hb mx i acc = acc"
      using False by (subst scan_subnet_loop.simps) (simp only: if_False simp_thms)
    have e: "[i..i - 1] = []" by simp
    show ?thesis
      apply (rule exI [of _ "i - 1"])
      using False "1.prems"(2) by (auto simp: eq e)
  next
    case True
    let ?b = "scan_subnet_body w net hb mx i acc"
    have eq: "scan_subnet_loop w net hb mx i acc = scan_subnet_loop w net hb mx (i + 1) ?b"
      using True by (subst scan_subnet_loop.simps) (simp only: if_True simp_thms)
    have "\<exists>k. (i + 1) - 1 \<le> k \<and> k \<le> mx
      \<and> scan_subnet_loop w net hb mx (i + 1) ?b = foldl ?f ?b [i + 1..k]
      \<and> (\<forall>j. (i + 1) - 1 \<le> j \<and> j < k \<longrightarrow>
            discovered_count (snd (foldl ?f ?b [i + 1..j])) < MAX_DISCOVERED_HOSTS)
      \<and> (k < mx \<longrightarrow> MAX_DISCOVERED_HOSTS \<le> discovered_count (snd (foldl ?f ?b [i + 1..k])))"
      by (rule "1.IH") (use True "1.prems" in auto)
    then obtain k where k: "i \<le> k" "k \<le> mx"
      "scan_subnet_loop w net hb mx (i + 1) ?b = foldl ?f ?b [i + 1..k]"
      "\<And>j. i \<le> j \<Longrightarrow> j < k \<Longrightarrow>
            discovered_count (snd (foldl ?f ?b [i + 1..j])) < MAX_DISCOVERED_HOSTS"
      "k < mx \<longrightarrow> MAX_DISCOVERED_HOSTS \<le> discovered_count (snd (foldl ?f ?b [i + 1..k]))"
      by auto
    have up: "\<And>j. i \<le> j \<Longrightarrow> foldl ?f acc [i..j] = foldl ?f ?b [i + 1..j]"
      by (simp add: upto_rec1)
    have a: "scan_subnet_loop w net hb mx i acc = foldl ?f acc [i..k]"
      unfolding eq k(3) using up [OF k(1)] by simp
    have b: "\<forall>j. i - 1 \<le> j \<and> j < k \<longrightarrow>
            discovered_count (snd (foldl ?f acc [i..j])) < MAX_DISCOVERED_HOSTS"
    proof (intro allI impI)
      fix j assume j: "i - 1 \<le> j \<and> j < k"
      show "discovered_count (snd (foldl ?f acc [i..j])) < MAX_DISCOVERED_HOSTS"
      proof (cases "j = i - 1")
        case True
        then have "[i..j] = []" by simp
        then show ?thesis using \<open>i \<le> mx \<and> discovered_count (snd acc) < MAX_DISCOVERED_HOSTS\<close>
          by simp
      next
        case False
        then have ij: "i \<le> j" using j by simp
        show ?thesis unfolding up [OF ij] using k(4) [OF ij] j by simp
      qed
    qed
    have c: "k < mx \<longrightarrow> MAX_DISCOVERED_HOSTS \<le> discovered_count (snd (foldl ?f acc [i..k]))"
      unfolding up [OF k(1)] by (rule k(5))
    show ?thesis
      apply (rule exI [of _ k])
      using k(1,2) a b c by simp
  qed
qed

lemma scan_fold_facts:
  assumes "\<And>j. j \<in> set js \<Longrightarrow> 0 < j \<and> validate_ip_string (Some (scan_target net hb j)) = 1"
  shows "cmds (snd (foldl (\<lambda>acc i. scan_subnet_body w net hb mx i acc) acc js)) =
           cmds (snd acc) @ map (\<lambda>j. ping_command (scan_target net hb j)) js
       \<and> printed (snd (foldl (\<lambda>acc i. scan_subnet_body w net hb mx i acc) acc js)) =
           printed (snd acc) @ map (\<lambda>j. ScanProgress j mx) (filter (\<lambda>j. j mod 50 = 0) js)
       \<and> discovered_count (snd (foldl (\<lambda>acc i. scan_subnet_body w net hb mx i acc) acc js))
           \<le> discovered_count (snd acc) + length js"
  using assms
proof (induction js arbitrary: acc)
  case Nil
  then show ?case by simp
next
  case (Cons j js)
  have v: "validate_ip_string (Some (scan_target net hb j)) = 1" and p: "0 < j"
    using Cons.prems [of j] by simp_all
  note bf = scan_body_facts [OF v p, of w mx acc]
  let ?b = "scan_subnet_body w net hb mx j acc"
  have ih: "cmds (snd (foldl (\<lambda>acc i. scan_subnet_body w net hb mx i acc) ?b js)) =
           cmds (snd ?b) @ map (\<lambda>j. ping_command (scan_target net hb j)) js
       \<and> printed (snd (foldl (\<lambda>acc i. scan_subnet_body w net hb mx i acc) ?b js)) =
           printed (snd ?b) @ map (\<lambda>j. ScanProgress j mx) (filter (\<lambda>j. j mod 50 = 0) js)
       \<and> discovered_count (snd (foldl (\<lambda>acc i. scan_subnet_body w net hb mx i acc) ?b js))
           \<le> discovered_count (snd ?b) + length js"
    by (rule Cons.IH) (use Cons.prems in auto)
  show ?case using ih bf by simp
qed

lemma scan_subnet_sweep:
  assumes o: "0 \<le> a" "a \<le> 255" "0 \<le> b" "b \<le> 255" "0 \<le> c" "c \<le> 255" "0 \<le> d" "d \<le> 255"
    and p: "16 \<le> p" "p \<le> 30"
  shows "\<exists>k. 0 \<le> k \<and> k \<le> candidate_count p
      \<and> scan_subnet w (dotted_quad (a, b, c, d)) p st =
          after_probes w (a, b, c, d) (32 - p) (candidate_count p) k (0, st)
      \<and> cmds (snd (scan_subnet w (dotted_quad (a, b, c, d)) p st)) =
          cmds st @ map (\<lambda>i. ping_command (dotted_quad (a, b, c, i))) [1..k]
      \<and> (\<forall>j. 0 \<le> j \<and> j < k \<longrightarrow>
            discovered_count (snd (after_probes w (a, b, c, d) (32 - p) (candidate_count p) j (0, st)))
              < MAX_DISCOVERED_HOSTS)
      \<and> (k < candidate_count p \<longrightarrow>
            MAX_DISCOVERED_HOSTS \<le>
              discovered_count (snd (after_probes w (a, b, c, d) (32 - p) (candidate_count p) k (0, st))))
      \<and> (int (discovered_count st) + candidate_count p \<le> int MAX_DISCOVERED_HOSTS \<longrightarrow>
            k = candidate_count p)"
proof -
  let ?N = "candidate_count p"
  let ?hb = "32 - p"
  let ?f = "\<lambda>acc i. scan_subnet_body w (a, b, c, d) ?hb ?N i acc"
  note cr = candidate_count_range [OF p]
  have pn: "parse_ip w (dotted_quad (a, b, c, d)) = (a, b, c, d)"
    unfolding dotted_quad_def prod.case by (rule parse_ip_quad) (use o in simp_all)
  have hs: "hosts_in_subnet ?hb = 2 ^ nat ?hb - 2"
    by (rule hosts_in_subnet_eq) (use p in simp_all)
  have mn: "\<And>x::int. (if x > 254 then 254 else x) = min x 254" by simp
  have mh: "(if hosts_in_subnet ?hb > 254 then 254 else hosts_in_subnet ?hb) = ?N"
    unfolding hs candidate_count_def by (rule mn)
  have eq: "scan_subnet w (dotted_quad (a, b, c, d)) p st =
            scan_subnet_loop w (a, b, c, d) ?hb ?N 1 (0, st)"
  proof -
    have pos: "\<not> ?N \<le> 0" using cr by simp
    show ?thesis
      unfolding scan_subnet_def Let_def pn mh by (simp only: pos if_False)
  qed
  have tq: "\<And>j. 1 \<le> j \<Longrightarrow> j \<le> ?N \<Longrightarrow>
      scan_target (a, b, c, d) ?hb j = dotted_quad (a, b, c, j)"
    unfolding dotted_quad_def prod.case by (rule scan_target_quad) (use cr in simp_all)
  have vq: "\<And>j. 1 \<le> j \<Longrightarrow> j \<le> ?N \<Longrightarrow>
      validate_ip_string (Some (scan_target (a, b, c, d) ?hb j)) = 1"
  proof -
    fix j assume j: "1 \<le> j" "j \<le> ?N"
    have "validate_ip_string (Some (snprintf_quad MAX_IP_LEN a b c j)) = 1"
      by (rule validate_quad) (use o j cr in simp_all)
    then show "validate_ip_string (Some (scan_target (a, b, c, d) ?hb j)) = 1"
      using tq [OF j] by (simp add: dotted_quad_def)
  qed
  have "\<exists>k. 1 - 1 \<le> k \<and> k \<le> ?N
      \<and> scan_subnet_loop w (a, b, c, d) ?hb ?N 1 (0, st) = foldl ?f (0, st) [1..k]
      \<and> (\<forall>j. 1 - 1 \<le> j \<and> j < k \<longrightarrow>
            discovered_count (snd (foldl ?f (0, st) [1..j])) < MAX_DISCOVERED_HOSTS)
      \<and> (k < ?N \<longrightarrow> MAX_DISCOVERED_HOSTS \<le> discovered_count (snd (foldl ?f (0, st) [1..k])))"
    by (rule scan_loop_fold) (use cr in simp_all)
  then obtain k where k: "0 \<le> k" "k \<le> ?N"
      "scan_subnet_loop w (a, b, c, d) ?hb ?N 1 (0, st) = foldl ?f (0, st) [1..k]"
      "\<forall>j. 0 \<le> j \<and> j < k \<longrightarrow>
            discovered_count (snd (foldl ?f (0, st) [1..j])) < MAX_DISCOVERED_HOSTS"
      "k < ?N \<longrightarrow> MAX_DISCOVERED_HOSTS \<le> discovered_count (snd (foldl ?f (0, st) [1..k]))"
    by auto
  have ff: "cmds (snd (foldl ?f (0, st) [1..k])) =
           cmds (snd (0::int, st)) @ map (\<lambda>j. ping_command (scan_target (a, b, c, d) ?hb j)) [1..k]
       \<and> printed (snd (foldl ?f (0, st) [1..k])) =
           printed (snd (0::int, st)) @ map (\<lambda>j. ScanProgress j ?N) (filter (\<lambda>j. j mod 50 = 0) [1..k])
       \<and> discovered_count (snd (foldl ?f (0, st) [1..k]))
           \<le> discovered_count (snd (0::int, st)) + length [1..k]"
    by (rule scan_fold_facts) (use vq k(2) in auto)
  have mp: "map (\<lambda>j. ping_command (scan_target (a, b, c, d) ?hb j)) [1..k] =
            map (\<lambda>i. ping_command (dotted_quad (a, b, c, i))) [1..k]"
    by (rule map_cong) (use tq k(2) in auto)
  have cm: "cmds (snd (scan_subnet w (dotted_quad (a, b, c, d)) p st)) =
          cmds st @ map (\<lambda>i. ping_command (dotted_quad (a, b, c, i))) [1..k]"
    unfolding eq k(3) using ff mp by simp
  have room: "int (discovered_count st) + ?N \<le> int MAX_DISCOVERED_HOSTS \<longrightarrow> k = ?N"
  proof
    assume r: "int (discovered_count st) + ?N \<le> int MAX_DISCOVERED_HOSTS"
    show "k = ?N"
    proof (rule ccontr)
      assume "k \<noteq> ?N"
      then have lt: "k < ?N" using k(2) by simp
      then have "MAX_DISCOVERED_HOSTS \<le> discovered_count (snd (foldl ?f (0, st) [1..k]))"
        using k(5) by simp
      moreover have "discovered_count (snd (foldl ?f (0, st) [1..k])) \<le> discovered_count st + nat k"
        using ff k(1) by simp
      ultimately show False using r lt k(1) by linarith
    qed
  qed
  show ?thesis
    apply (rule exI [of _ k])
    using k(1,2,4,5) cm room unfolding after_probes_def eq k(3) by simp
qed

text \<open>
  C1, as the code has it by design.  For a network address \<open>a.b.c.0\<close> with octets in
  0..255 and a prefix length in 16..30, let \<open>N = min (2 ^ (32 - prefix) - 2) 254\<close>.
  \<^verbatim>\<open>scan_subnet\<close> probes \<open>a.b.c.1\<close>, \<open>a.b.c.2\<close>, ... in this order: candidate \<open>j + 1\<close> is
  probed exactly when \<open>j < N\<close> and the registry holds fewer than
  \<open>MAX_DISCOVERED_HOSTS\<close> entries after the first \<open>j\<close> probes.  So the sweep ends after
  \<open>N\<close> candidates or at the first moment the registry is full, and with room in the
  registry for \<open>N\<close> more entries it probes exactly \<open>N\<close> candidates.  When the host bits
  of the network address are zero no candidate is the network address or the broadcast
  address.  For 192.168.1.0/24 and room in the registry the candidates are 192.168.1.1 to
  192.168.1.254.  (\<open>after_probes ... j\<close> is the state after the first \<open>j\<close> candidates have
  gone through the loop body.)
\<close>

theorem scan_subnet_candidates:
  assumes "0 \<le> a" "a \<le> 255" "0 \<le> b" "b \<le> 255" "0 \<le> c" "c \<le> 255"
    and "16 \<le> p" "p \<le> 30"
  shows "(\<exists>k. 0 \<le> k \<and> k \<le> candidate_count p
      \<and> scan_subnet w (dotted_quad (a, b, c, 0)) p st =
          after_probes w (a, b, c, 0) (32 - p) (candidate_count p) k (0, st)
      \<and> cmds (snd (scan_subnet w (dotted_quad (a, b, c, 0)) p st)) =
          cmds st @ map (\<lambda>i. ping_command (dotted_quad (a, b, c, i))) [1..k]
      \<and> (\<forall>j. 0 \<le> j \<and> j < k \<longrightarrow>
            discovered_count
              (snd (after_probes w (a, b, c, 0) (32 - p) (candidate_count p) j (0, st)))
              < MAX_DISCOVERED_HOSTS)
      \<and> (k < candidate_count p \<longrightarrow>
            MAX_DISCOVERED_HOSTS \<le>
              discovered_count
                (snd (after_probes w (a, b, c, 0) (32 - p) (candidate_count p) k (0, st))))
      \<and> (int (discovered_count st) + candidate_count p \<le> int MAX_DISCOVERED_HOSTS \<longrightarrow>
            k = candidate_count p))
    \<and> (host_bits_zero (a, b, c, 0) p \<and> 1 \<le> i \<and> i \<le> candidate_count p \<longrightarrow>
         dotted_quad (a, b, c, i) \<noteq> dotted_quad (a, b, c, 0)
         \<and> dotted_quad (a, b, c, i) \<noteq> dotted_quad (broadcast_address (a, b, c, 0) p))
    \<and> (int (discovered_count st) + 254 \<le> int MAX_DISCOVERED_HOSTS \<longrightarrow>
         cmds (snd (scan_subnet w ''192.168.1.0'' 24 st)) =
           cmds st @ map (\<lambda>i. ping_command (''192.168.1.'' @ show_int i)) [1..254])"
proof (intro conjI impI)
  have d: "(0::int) \<le> 0" "(0::int) \<le> 255" by simp_all
  show "\<exists>k. 0 \<le> k \<and> k \<le> candidate_count p
      \<and> scan_subnet w (dotted_quad (a, b, c, 0)) p st =
          after_probes w (a, b, c, 0) (32 - p) (candidate_count p) k (0, st)
      \<and> cmds (snd (scan_subnet w (dotted_quad (a, b, c, 0)) p st)) =
          cmds st @ map (\<lambda>i. ping_command (dotted_quad (a, b, c, i))) [1..k]
      \<and> (\<forall>j. 0 \<le> j \<and> j < k \<longrightarrow>
            discovered_count
              (snd (after_probes w (a, b, c, 0) (32 - p) (candidate_count p) j (0, st)))
              < MAX_DISCOVERED_HOSTS)
      \<and> (k < candidate_count p \<longrightarrow>
            MAX_DISCOVERED_HOSTS \<le>
              discovered_count
                (snd (after_probes w (a, b, c, 0) (32 - p) (candidate_count p) k (0, st))))
      \<and> (int (discovered_count st) + candidate_count p \<le> int MAX_DISCOVERED_HOSTS \<longrightarrow>
            k = candidate_count p)"
    by (rule scan_subnet_sweep [OF assms(1-6) d assms(7,8)])
next
  assume h: "host_bits_zero (a, b, c, 0) p \<and> 1 \<le> i \<and> i \<le> candidate_count p"
  have d: "(0::int) \<le> 0" "(0::int) \<le> 255" by simp_all
  note cr = candidate_count_range [OF assms(7,8)]
  have al: "addr_value (a, b, c, 0) mod 2 ^ nat (32 - p) = 0"
    using h by (simp add: host_bits_zero_def)
  have i1: "1 \<le> i" and i2: "i \<le> 254" and i3: "i \<le> 2 ^ nat (32 - p) - 2"
    using h cr by linarith+
  show "dotted_quad (a, b, c, i) \<noteq> dotted_quad (a, b, c, 0)"
    by (rule candidate_not_network_string [OF assms(1-6) d al i1 i2 i3])
  have hb: "nat (32 - p) \<le> 32" using assms(7) by simp
  show "dotted_quad (a, b, c, i) \<noteq> dotted_quad (broadcast_address (a, b, c, 0) p)"
    unfolding broadcast_address_def
    by (rule candidate_not_broadcast_string [OF assms(1-6) d al hb i1 i2 i3])
next
  assume room: "int (discovered_count st) + 254 \<le> int MAX_DISCOVERED_HOSTS"
  have "\<exists>k. 0 \<le> k \<and> k \<le> candidate_count 24
      \<and> cmds (snd (scan_subnet w (dotted_quad (192, 168, 1, 0)) 24 st)) =
          cmds st @ map (\<lambda>i. ping_command (dotted_quad (192, 168, 1, i))) [1..k]
      \<and> printed (snd (scan_subnet w (dotted_quad (192, 168, 1, 0)) 24 st)) =
          printed st @ scan_progress (candidate_count 24) 1 k
      \<and> (int (discovered_count st) + candidate_count 24 \<le> int MAX_DISCOVERED_HOSTS \<longrightarrow>
           k = candidate_count 24)
      \<and> (k < candidate_count 24 \<longrightarrow>
           MAX_DISCOVERED_HOSTS \<le> discovered_count (snd (scan_subnet w (dotted_quad (192, 168, 1, 0)) 24 st)))"
    by (rule scan_subnet_trace) simp_all
  then have c: "cmds (snd (scan_subnet w (dotted_quad (192, 168, 1, 0)) 24 st)) =
          cmds st @ map (\<lambda>i. ping_command (dotted_quad (192, 168, 1, i))) [1..254]"
    using room unfolding candidate_count_24 by auto
  have n: "dotted_quad (192, 168, 1, 0) = ''192.168.1.0''"
    by (simp add: dotted_quad_192_168_1 show_int_def show_nat_0)
  have m: "map (\<lambda>i. ping_command (dotted_quad (192, 168, 1, i))) [1..254] =
           map (\<lambda>i. ping_command (''192.168.1.'' @ show_int i)) [1..254]"
    by (rule map_cong) (simp_all add: dotted_quad_192_168_1)
  show "cmds (snd (scan_subnet w ''192.168.1.0'' 24 st)) =
           cmds st @ map (\<lambda>i. ping_command (''192.168.1.'' @ show_int i)) [1..254]"
    using c unfolding n m .
qed

theorem scan_subnet_candidates_witness:
  "cmds (snd (scan_subnet silent_world (dotted_quad (10, 0, 0, 0)) 30 initial_state)) =
     map (\<lambda>i. ping_command (dotted_quad (10, 0, 0, i))) [1..2]
   \<and> host_bits_zero (10, 0, 0, 0) 30
   \<and> dotted_quad (10, 0, 0, 1) \<noteq> dotted_quad (10, 0, 0, 0)
   \<and> dotted_quad (10, 0, 0, 1) \<noteq> dotted_quad (broadcast_address (10, 0, 0, 0) 30)"
proof -
  have cc: "candidate_count 30 = 2" by (simp add: candidate_count_def)
  have dc: "discovered_count initial_state = 0" "cmds initial_state = []"
    by (simp_all add: discovered_count_def initial_state_def)
  have hz: "host_bits_zero (10, 0, 0, 0) 30" by (simp add: host_bits_zero_def addr_value_def)
  show ?thesis
    using scan_subnet_candidates [of 10 0 0 30 silent_world initial_state 1] hz
    by (auto simp: cc dc MAX_DISCOVERED_HOSTS_def)
qed

text \<open>
  C1 as stated fails when the registry is full: the loop condition
  \<^verbatim>\<open>discovered_count < MAX_DISCOVERED_HOSTS\<close> ends the sweep before the first candidate.
\<close>

theorem scan_subnet_full_registry_counterexample:
  "discovered_count full_registry_state = 1024
   \<and> candidate_count 24 = 254
   \<and> cmds (snd (scan_subnet silent_world ''192.168.1.0'' 24 full_registry_state)) = []"
proof -
  have dc: "discovered_count full_registry_state = 1024"
    by (simp add: discovered_count_def full_registry_state_def)
  have hs: "hosts_in_subnet 8 = 254" using hosts_in_subnet_eq [of 8] by simp
  have stop: "\<And>net acc. snd acc = full_registry_state \<Longrightarrow>
      scan_subnet_loop silent_world net 8 254 1 acc = acc"
    by (subst scan_subnet_loop.simps) (simp add: dc MAX_DISCOVERED_HOSTS_def)
  have "scan_subnet silent_world ''192.168.1.0'' 24 full_registry_state = (0, full_registry_state)"
    by (simp add: scan_subnet_def Let_def hs stop)
  then show ?thesis using dc by (simp add: candidate_count_24 full_registry_state_def)
qed

section \<open>Progress reports\<close>

lemma network_body_facts:
  assumes "0 < i" "0 < ps"
  shows "printed (discover_network_body w net msk hb ps i st) =
           printed st @ (if i mod ps = 0 then [ProgressTick] else [])"
    and "discovered_count (discover_network_body w net msk hb ps i st) \<le> discovered_count st + 1"
proof -
  obtain rt st1 where p: "ping_host_system w (network_target net msk hb i) st = (rt, st1)"
    by (cases "ping_host_system w (network_target net msk hb i) st")
  have p1: "printed st1 = printed st"
    using printed_ping [of w "network_target net msk hb i" st] p by simp
  have d1: "discovered_count st1 = discovered_count st"
    using discovered_count_ping [of w "network_target net msk hb i" st] p by simp
  have m: "i smod ps = i mod ps" using assms by (simp add: smod_nonneg)
  show "printed (discover_network_body w net msk hb ps i st) =
           printed st @ (if i mod ps = 0 then [ProgressTick] else [])"
    using p p1 m by (simp add: discover_network_body_def Let_def)
  show "discovered_count (discover_network_body w net msk hb ps i st) \<le> discovered_count st + 1"
    using p d1 by (simp add: discover_network_body_def Let_def)
qed

lemma network_loop_ticks:
  assumes "0 < i" "0 < ps"
    and "int (discovered_count st) + (mx - i + 1) \<le> int MAX_DISCOVERED_HOSTS"
  shows "printed (discover_network_loop w net msk hb ps mx i st) =
           printed st @ replicate (length (filter (\<lambda>j. j mod ps = 0) [i..mx])) ProgressTick"
  using assms
proof (induction w net msk hb ps mx i st rule: discover_network_loop.induct)
  case (1 w net msk hb ps mx i st)
  show ?case
  proof (cases "i \<le> mx")
    case False
    then have eq: "discover_network_loop w net msk hb ps mx i st = st"
      by (subst discover_network_loop.simps) (simp only: if_False simp_thms)
    show ?thesis using False by (simp add: eq)
  next
    case True
    have c: "discovered_count st < MAX_DISCOVERED_HOSTS" using True "1.prems"(3) by linarith
    let ?b = "discover_network_body w net msk hb ps i st"
    have eq: "discover_network_loop w net msk hb ps mx i st =
              discover_network_loop w net msk hb ps mx (i + 1) ?b"
      using True c by (subst discover_network_loop.simps) (simp only: if_True simp_thms)
    note bf = network_body_facts [OF "1.prems"(1,2), of w net msk hb st]
    have ih: "printed (discover_network_loop w net msk hb ps mx (i + 1) ?b) =
        printed ?b @ replicate (length (filter (\<lambda>j. j mod ps = 0) [i + 1..mx])) ProgressTick"
      by (rule "1.IH") (use True c "1.prems" bf(2) in auto)
    have up: "[i..mx] = i # [i + 1..mx]" using True by (simp add: upto_rec1)
    show ?thesis unfolding eq ih bf(1) up by simp
  qed
qed

lemma local_max_hosts_le: "local_max_hosts w nm \<le> 254"
  by (simp add: local_max_hosts_def)

lemma progress_step_pos: "0 < progress_step n"
  by (simp add: progress_step_def)

lemma discover_network_ticks:
  assumes "local_info w = Some (lip, na, nm)"
  shows "printed (snd (discover_network w st)) =
     printed st @ replicate (nat (local_max_hosts w nm div progress_step (local_max_hosts w nm)))
                    ProgressTick"
proof -
  let ?N = "local_max_hosts w nm"
  let ?s = "progress_step ?N"
  let ?st0 = "st\<lparr>hosts := []\<rparr>"
  have room: "int (discovered_count ?st0) + (?N - 1 + 1) \<le> int MAX_DISCOVERED_HOSTS"
    using local_max_hosts_le [of w nm] by (simp add: discovered_count_def MAX_DISCOVERED_HOSTS_def)
  have t: "printed (discover_network_loop w (parse_ip w na) (parse_ip w nm) (get_host_bits w nm) ?s ?N 1 ?st0) =
           printed ?st0 @ replicate (length (filter (\<lambda>j. j mod ?s = 0) [1..?N])) ProgressTick"
    by (rule network_loop_ticks) (use room progress_step_pos in simp_all)
  have cnt: "length (filter (\<lambda>j. j mod ?s = 0) [1..?N]) = nat (?N div ?s)"
  proof (cases "0 \<le> ?N")
    case True
    then show ?thesis using count_multiples [OF progress_step_pos, of ?N ?N] by simp
  next
    case False
    then have "?N div ?s < 0" using progress_step_pos [of ?N] by (simp add: div_neg_pos_less0)
    then show ?thesis using False by simp
  qed
  show ?thesis
    using assms t cnt
    by (simp add: discover_network_def Let_def local_max_hosts_def [symmetric]
        progress_step_def [symmetric])
qed

lemma lan_hosts: "local_max_hosts lan_world ''255.255.255.0'' = 254"
  by code_simp

lemma progress_step_254: "progress_step 254 = 12"
  by code_simp

lemma sp254: "scan_progress 254 1 254 =
   [ScanProgress 50 254, ScanProgress 100 254, ScanProgress 150 254, ScanProgress 200 254,
    ScanProgress 250 254]"
  by code_simp

lemma progress_step_bounds:
  assumes "20 \<le> n"
  shows "20 \<le> n div progress_step n \<and> n div progress_step n < 40"
proof -
  define s where "s = n div 20"
  have s1: "1 \<le> s" using assms unfolding s_def by (simp add: pos_imp_zdiv_pos_iff)
  have ps: "progress_step n = s"
    using assms s1 unfolding progress_step_def s_def by (simp add: sdiv_nonneg)
  have lo: "s * 20 \<le> n"
  proof -
    have "n = 20 * (n div 20) + n mod 20" by simp
    moreover have "0 \<le> n mod 20" by simp
    ultimately show ?thesis unfolding s_def by linarith
  qed
  have hi: "n < s * 20 + 20"
  proof -
    have "n = 20 * (n div 20) + n mod 20" by simp
    moreover have "n mod 20 < 20" by simp
    ultimately show ?thesis unfolding s_def by linarith
  qed
  have "20 \<le> n div s"
  proof -
    have "(s * 20) div s \<le> n div s" using lo s1 by (intro zdiv_mono1) simp_all
    then show ?thesis using s1 by simp
  qed
  moreover have "n div s < 40"
  proof -
    have lt: "n < 40 * s" using hi s1 by linarith
    show ?thesis
    proof (rule ccontr)
      assume a: "\<not> n div s < 40"
      define q where "q = n div s"
      define r where "r = n mod s"
      have e: "n = s * q + r" by (simp add: q_def r_def)
      have r0: "0 \<le> r" using s1 by (simp add: r_def)
      have "40 \<le> q" using a by (simp add: q_def)
      then have "s * 40 \<le> s * q" using s1 by (intro mult_left_mono) simp_all
      then show False using lt e r0 by linarith
    qed
  qed
  ultimately show ?thesis by (simp add: ps)
qed

lemma scan_progress_length:
  "0 \<le> n \<Longrightarrow> length (scan_progress n 1 n) = nat (n div 50)"
  using count_multiples [of 50 n] by (simp add: scan_progress_def)
lemma ping_cmds:
  "cmds (snd (ping_host_system w ip st)) =
     cmds st @ (if validate_ip_string (Some ip) = 0 then [] else [ping_command ip])"
  by (simp add: ping_host_system_def run_popen_def ping_command_def split: option.splits)

lemma network_body_cmds:
  "cmds (discover_network_body w net msk hb ps i st) =
     cmds st @ (if validate_ip_string (Some (network_target net msk hb i)) = 0 then []
                else [ping_command (network_target net msk hb i)])"
proof -
  obtain rt st1 where p: "ping_host_system w (network_target net msk hb i) st = (rt, st1)"
    by (cases "ping_host_system w (network_target net msk hb i) st")
  have "cmds st1 = cmds st @ (if validate_ip_string (Some (network_target net msk hb i)) = 0 then []
                else [ping_command (network_target net msk hb i)])"
    using ping_cmds [of w "network_target net msk hb i" st] p by simp
  then show ?thesis using p by (simp add: discover_network_body_def Let_def)
qed

lemma network_loop_fold:
  assumes "0 < i" "0 < ps"
    and "int (discovered_count st) + (mx - i + 1) \<le> int MAX_DISCOVERED_HOSTS"
  shows "discover_network_loop w net msk hb ps mx i st =
           foldl (\<lambda>s i. discover_network_body w net msk hb ps i s) st [i..mx]"
  using assms
proof (induction w net msk hb ps mx i st rule: discover_network_loop.induct)
  case (1 w net msk hb ps mx i st)
  show ?case
  proof (cases "i \<le> mx")
    case False
    then have eq: "discover_network_loop w net msk hb ps mx i st = st"
      by (subst discover_network_loop.simps) (simp only: if_False simp_thms)
    show ?thesis using False by (simp add: eq)
  next
    case True
    have c: "discovered_count st < MAX_DISCOVERED_HOSTS" using True "1.prems"(3) by linarith
    let ?b = "discover_network_body w net msk hb ps i st"
    have eq: "discover_network_loop w net msk hb ps mx i st =
              discover_network_loop w net msk hb ps mx (i + 1) ?b"
      using True c by (subst discover_network_loop.simps) (simp only: if_True simp_thms)
    note bf = network_body_facts [OF "1.prems"(1,2), of w net msk hb st]
    have ih: "discover_network_loop w net msk hb ps mx (i + 1) ?b =
        foldl (\<lambda>s i. discover_network_body w net msk hb ps i s) ?b [i + 1..mx]"
      by (rule "1.IH") (use True c "1.prems" bf(2) in auto)
    have up: "[i..mx] = i # [i + 1..mx]" using True by (simp add: upto_rec1)
    show ?thesis unfolding eq ih up by simp
  qed
qed

lemma network_fold_printed:
  assumes "0 < ps" "\<And>j. j \<in> set js \<Longrightarrow> 0 < j"
  shows "printed (foldl (\<lambda>s i. discover_network_body w net msk hb ps i s) st js) =
           printed st @ replicate (length (filter (\<lambda>j. j mod ps = 0) js)) ProgressTick"
  using assms(2)
proof (induction js arbitrary: st)
  case Nil
  then show ?case by simp
next
  case (Cons j js)
  have p: "0 < j" using Cons.prems [of j] by simp
  note bf = network_body_facts [OF p assms(1), of w net msk hb st]
  have ih: "printed (foldl (\<lambda>s i. discover_network_body w net msk hb ps i s)
                (discover_network_body w net msk hb ps j st) js) =
           printed (discover_network_body w net msk hb ps j st) @
           replicate (length (filter (\<lambda>j. j mod ps = 0) js)) ProgressTick"
    by (rule Cons.IH) (use Cons.prems in auto)
  show ?case using ih bf(1) by (simp add: replicate_app_Cons_same)
qed

lemma network_sweep_printed:
  assumes "0 \<le> j"
  shows "printed (network_sweep w na nm j st) =
     printed st @ replicate (nat (j div progress_step (local_max_hosts w nm))) ProgressTick"
proof -
  have "printed (network_sweep w na nm j st) =
     printed (st\<lparr>hosts := []\<rparr>) @
     replicate (length (filter (\<lambda>i. i mod progress_step (local_max_hosts w nm) = 0) [1..j]))
       ProgressTick"
    unfolding network_sweep_def
    by (rule network_fold_printed) (use progress_step_pos in auto)
  then show ?thesis using count_multiples [OF progress_step_pos assms] by simp
qed

lemma network_sweep_step:
  assumes "1 \<le> j"
  shows "network_sweep w na nm j st =
     discover_network_body w (parse_ip w na) (parse_ip w nm) (get_host_bits w nm)
       (progress_step (local_max_hosts w nm)) j (network_sweep w na nm (j - 1) st)"
proof -
  have "[1..j] = [1..j - 1] @ [j]" using assms by (simp add: upto_rec2)
  then show ?thesis by (simp add: network_sweep_def)
qed

lemma discover_network_sweep:
  assumes "local_info w = Some (lip, na, nm)"
  shows "snd (discover_network w st) = network_sweep w na nm (local_max_hosts w nm) st"
proof -
  let ?N = "local_max_hosts w nm"
  let ?s = "progress_step ?N"
  let ?st0 = "st\<lparr>hosts := []\<rparr>"
  have room: "int (discovered_count ?st0) + (?N - 1 + 1) \<le> int MAX_DISCOVERED_HOSTS"
    using local_max_hosts_le [of w nm] by (simp add: discovered_count_def MAX_DISCOVERED_HOSTS_def)
  have t: "discover_network_loop w (parse_ip w na) (parse_ip w nm) (get_host_bits w nm) ?s ?N 1 ?st0 =
           foldl (\<lambda>s i. discover_network_body w (parse_ip w na) (parse_ip w nm)
                          (get_host_bits w nm) ?s i s) ?st0 [1..?N]"
    by (rule network_loop_fold) (use room progress_step_pos in simp_all)
  show ?thesis
    using assms t
    by (simp add: discover_network_def Let_def local_max_hosts_def [symmetric]
        progress_step_def [symmetric] network_sweep_def)
qed

text \<open>
  C7, as the code has it.  The sweep of the local network (\<^verbatim>\<open>discover_network\<close>) goes
  through its \<open>N\<close> candidates in order, and the iteration for candidate \<open>j\<close> first probes
  it and then prints one tick exactly when \<open>j\<close> is a multiple of \<open>max 1 (N / 20)\<close>: after
  the first \<open>j\<close> candidates \<open>j div max 1 (N / 20)\<close> ticks are out, which makes between 20
  and 39 ticks over a sweep of \<open>N \<ge> 20\<close> candidates.  \<^verbatim>\<open>scan_subnet\<close> prints one progress
  line every 50 candidates, at most five over a sweep.  (\<open>network_sweep ... j\<close> is the
  state after the first \<open>j\<close> candidates of the local sweep.)
\<close>

theorem progress_cadence:
  "(local_info w = Some (lip, na, nm) \<longrightarrow>
      snd (discover_network w st) = network_sweep w na nm (local_max_hosts w nm) st
      \<and> printed (snd (discover_network w st)) =
        printed st @ replicate (nat (local_max_hosts w nm div progress_step (local_max_hosts w nm)))
                       ProgressTick
      \<and> (\<forall>j. 0 \<le> j \<longrightarrow>
            printed (network_sweep w na nm j st) =
              printed st @ replicate (nat (j div progress_step (local_max_hosts w nm))) ProgressTick)
      \<and> (\<forall>j. 1 \<le> j \<longrightarrow>
            network_sweep w na nm j st =
              discover_network_body w (parse_ip w na) (parse_ip w nm) (get_host_bits w nm)
                (progress_step (local_max_hosts w nm)) j (network_sweep w na nm (j - 1) st)))
   \<and> (0 < i \<longrightarrow>
        printed (discover_network_body w net msk hb (progress_step n) i st) =
          printed st @ (if i mod progress_step n = 0 then [ProgressTick] else [])
        \<and> cmds (discover_network_body w net msk hb (progress_step n) i st) =
          cmds st @ (if validate_ip_string (Some (network_target net msk hb i)) = 0 then []
                     else [ping_command (network_target net msk hb i)]))
   \<and> (20 \<le> n \<longrightarrow> 20 \<le> n div progress_step n \<and> n div progress_step n < 40)
   \<and> (0 \<le> a \<and> a \<le> 255 \<and> 0 \<le> b \<and> b \<le> 255 \<and> 0 \<le> c \<and> c \<le> 255 \<and> 0 \<le> d \<and> d \<le> 255
        \<and> 16 \<le> p \<and> p \<le> 30
        \<and> int (discovered_count st) + candidate_count p \<le> int MAX_DISCOVERED_HOSTS \<longrightarrow>
      printed (snd (scan_subnet w (dotted_quad (a, b, c, d)) p st)) =
        printed st @ scan_progress (candidate_count p) 1 (candidate_count p)
      \<and> length (scan_progress (candidate_count p) 1 (candidate_count p)) =
          nat (candidate_count p div 50)
      \<and> candidate_count p div 50 \<le> 5)"
proof (intro conjI impI allI)
  assume li: "local_info w = Some (lip, na, nm)"
  show "snd (discover_network w st) = network_sweep w na nm (local_max_hosts w nm) st"
    using li by (rule discover_network_sweep)
  show "printed (snd (discover_network w st)) =
        printed st @ replicate (nat (local_max_hosts w nm div progress_step (local_max_hosts w nm)))
                       ProgressTick"
    using li by (rule discover_network_ticks)
next
  fix j :: int
  assume "0 \<le> j"
  then show "printed (network_sweep w na nm j st) =
              printed st @ replicate (nat (j div progress_step (local_max_hosts w nm))) ProgressTick"
    by (rule network_sweep_printed)
next
  fix j :: int
  assume "1 \<le> j"
  then show "network_sweep w na nm j st =
              discover_network_body w (parse_ip w na) (parse_ip w nm) (get_host_bits w nm)
                (progress_step (local_max_hosts w nm)) j (network_sweep w na nm (j - 1) st)"
    by (rule network_sweep_step)
next
  assume "0 < i"
  then show "printed (discover_network_body w net msk hb (progress_step n) i st) =
          printed st @ (if i mod progress_step n = 0 then [ProgressTick] else [])"
    using progress_step_pos by (rule network_body_facts(1))
next
  show "cmds (discover_network_body w net msk hb (progress_step n) i st) =
          cmds st @ (if validate_ip_string (Some (network_target net msk hb i)) = 0 then []
                     else [ping_command (network_target net msk hb i)])"
    by (rule network_body_cmds)
next
  assume "20 \<le> n"
  then show "20 \<le> n div progress_step n" "n div progress_step n < 40"
    using progress_step_bounds [of n] by simp_all
next
  assume h: "0 \<le> a \<and> a \<le> 255 \<and> 0 \<le> b \<and> b \<le> 255 \<and> 0 \<le> c \<and> c \<le> 255 \<and> 0 \<le> d \<and> d \<le> 255
        \<and> 16 \<le> p \<and> p \<le> 30
        \<and> int (discovered_count st) + candidate_count p \<le> int MAX_DISCOVERED_HOSTS"
  have cr: "2 \<le> candidate_count p \<and> candidate_count p \<le> 254
         \<and> candidate_count p \<le> 2 ^ nat (32 - p) - 2"
    by (rule candidate_count_range) (use h in simp_all)
  have "\<exists>k. 0 \<le> k \<and> k \<le> candidate_count p
      \<and> cmds (snd (scan_subnet w (dotted_quad (a, b, c, d)) p st)) =
          cmds st @ map (\<lambda>i. ping_command (dotted_quad (a, b, c, i))) [1..k]
      \<and> printed (snd (scan_subnet w (dotted_quad (a, b, c, d)) p st)) =
          printed st @ scan_progress (candidate_count p) 1 k
      \<and> (int (discovered_count st) + candidate_count p \<le> int MAX_DISCOVERED_HOSTS \<longrightarrow>
           k = candidate_count p)
      \<and> (k < candidate_count p \<longrightarrow>
           MAX_DISCOVERED_HOSTS \<le> discovered_count (snd (scan_subnet w (dotted_quad (a, b, c, d)) p st)))"
    by (rule scan_subnet_trace) (use h in simp_all)
  then show "printed (snd (scan_subnet w (dotted_quad (a, b, c, d)) p st)) =
        printed st @ scan_progress (candidate_count p) 1 (candidate_count p)"
    using h by auto
  show "length (scan_progress (candidate_count p) 1 (candidate_count p)) =
          nat (candidate_count p div 50)"
    by (rule scan_progress_length) (use cr in simp)
  have "candidate_count p \<le> 254" using cr by (rule conjunct1 [OF conjunct2])
  then show "candidate_count p div 50 \<le> 5" by presburger
qed

theorem progress_cadence_witness:
  "printed (snd (discover_network lan_world initial_state)) = replicate 21 ProgressTick
   \<and> printed (network_sweep lan_world ''192.168.1.0'' ''255.255.255.0'' 11 initial_state) = []
   \<and> printed (network_sweep lan_world ''192.168.1.0'' ''255.255.255.0'' 12 initial_state) =
       [ProgressTick]
   \<and> (20::int) \<le> 254 div progress_step 254
   \<and> printed (snd (scan_subnet silent_world (dotted_quad (10, 0, 0, 0)) 30 initial_state)) = []"
proof -
  have li: "local_info lan_world = Some (''192.168.1.10'', ''192.168.1.0'', ''255.255.255.0'')"
    by (simp add: lan_world_def)
  have cc: "candidate_count 30 = 2" by (simp add: candidate_count_def)
  have dc: "discovered_count initial_state = 0" "printed initial_state = []"
    by (simp_all add: discovered_count_def initial_state_def)
  have sp: "scan_progress 2 1 2 = []" by code_simp
  note t1 = progress_cadence [of lan_world "''192.168.1.10''" "''192.168.1.0''" "''255.255.255.0''"
        initial_state 1 "(0, 0, 0, 0)" "(0, 0, 0, 0)" 0 254 10 0 0 0 30]
  have a0: "printed (snd (discover_network lan_world initial_state)) =
        printed initial_state @
        replicate (nat (local_max_hosts lan_world ''255.255.255.0'' div
                        progress_step (local_max_hosts lan_world ''255.255.255.0''))) ProgressTick"
    using t1 li by blast
  have a: "printed (snd (discover_network lan_world initial_state)) = replicate 21 ProgressTick"
    unfolding a0 by (simp add: lan_hosts progress_step_254 dc)
  have b0: "\<forall>j. 0 \<le> j \<longrightarrow>
            printed (network_sweep lan_world ''192.168.1.0'' ''255.255.255.0'' j initial_state) =
              printed initial_state @
              replicate (nat (j div progress_step (local_max_hosts lan_world ''255.255.255.0'')))
                ProgressTick"
    using t1 li by blast
  have b11: "printed (network_sweep lan_world ''192.168.1.0'' ''255.255.255.0'' 11 initial_state) = []"
    using b0 [rule_format, of 11] by (simp add: lan_hosts progress_step_254 dc)
  have b12: "printed (network_sweep lan_world ''192.168.1.0'' ''255.255.255.0'' 12 initial_state) =
       [ProgressTick]"
    using b0 [rule_format, of 12] by (simp add: lan_hosts progress_step_254 dc)
  have c: "(20::int) \<le> 254 div progress_step 254" by (simp add: progress_step_254)
  have d0: "(0::int) \<le> 10 \<and> (10::int) \<le> 255 \<and> (0::int) \<le> 0 \<and> (0::int) \<le> 255
        \<and> (0::int) \<le> 0 \<and> (0::int) \<le> 255 \<and> (0::int) \<le> 0 \<and> (0::int) \<le> 255
        \<and> (16::int) \<le> 30 \<and> (30::int) \<le> 30
        \<and> int (discovered_count initial_state) + candidate_count 30 \<le> int MAX_DISCOVERED_HOSTS"
    by (simp add: cc dc MAX_DISCOVERED_HOSTS_def)
  have d1: "printed (snd (scan_subnet silent_world (dotted_quad (10, 0, 0, 0)) 30 initial_state)) =
        printed initial_state @ scan_progress (candidate_count 30) 1 (candidate_count 30)"
    using progress_cadence [of silent_world "[]" "[]" "[]" initial_state 1
        "(0, 0, 0, 0)" "(0, 0, 0, 0)" 0 254 10 0 0 0 30] d0
    by blast
  have d: "printed (snd (scan_subnet silent_world (dotted_quad (10, 0, 0, 0)) 30 initial_state)) = []"
    unfolding d1 by (simp add: cc dc sp)
  show ?thesis using a b11 b12 c d by simp
qed

text \<open>
  C7 as stated fails for \<^verbatim>\<open>scan_subnet\<close>: a full sweep of 192.168.1.0/24 probes 254
  candidates and prints five progress lines, one every 50 candidates, where one update per
  254 / 20 = 12 candidates would give 21.
\<close>

theorem scan_subnet_progress_counterexample:
  "length (cmds (snd (scan_subnet silent_world ''192.168.1.0'' 24 initial_state))) = 254
   \<and> printed (snd (scan_subnet silent_world ''192.168.1.0'' 24 initial_state)) =
       [ScanProgress 50 254, ScanProgress 100 254, ScanProgress 150 254, ScanProgress 200 254,
        ScanProgress 250 254]
   \<and> progress_step 254 = 12
   \<and> (254::int) div progress_step 254 = 21"
proof -
  have dc: "discovered_count initial_state = 0" "printed initial_state = []"
    "cmds initial_state = []"
    by (simp_all add: discovered_count_def initial_state_def)
  have n: "dotted_quad (192, 168, 1, 0) = ''192.168.1.0''"
    by (simp add: dotted_quad_192_168_1 show_int_def show_nat_0)
  have "\<exists>k. 0 \<le> k \<and> k \<le> candidate_count 24
      \<and> cmds (snd (scan_subnet silent_world (dotted_quad (192, 168, 1, 0)) 24 initial_state)) =
          cmds initial_state @ map (\<lambda>i. ping_command (dotted_quad (192, 168, 1, i))) [1..k]
      \<and> printed (snd (scan_subnet silent_world (dotted_quad (192, 168, 1, 0)) 24 initial_state)) =
          printed initial_state @ scan_progress (candidate_count 24) 1 k
      \<and> (int (discovered_count initial_state) + candidate_count 24 \<le> int MAX_DISCOVERED_HOSTS \<longrightarrow>
           k = candidate_count 24)
      \<and> (k < candidate_count 24 \<longrightarrow>
           MAX_DISCOVERED_HOSTS \<le> discovered_count (snd (scan_subnet silent_world (dotted_quad (192, 168, 1, 0)) 24 initial_state)))"
    by (rule scan_subnet_trace) simp_all
  then have "cmds (snd (scan_subnet silent_world ''192.168.1.0'' 24 initial_state)) =
          map (\<lambda>i. ping_command (dotted_quad (192, 168, 1, i))) [1..254]
      \<and> printed (snd (scan_subnet silent_world ''192.168.1.0'' 24 initial_state)) =
          scan_progress 254 1 254"
    unfolding n candidate_count_24 dc by (auto simp: MAX_DISCOVERED_HOSTS_def)
  then show ?thesis by (simp add: sp254 progress_step_254)
qed

section \<open>Duplicates in the registry\<close>

text \<open>
  C2 fails in \<^verbatim>\<open>discover_arp_cache\<close> (and so in \<^verbatim>\<open>discover_efficient\<close>, which calls
  it): its loop stores every line of the neighbour table without the duplicate check that
  the same loop in \<^verbatim>\<open>discover_automatic\<close> performs.  On a table that lists 192.168.1.1
  on two interfaces the registry ends with that address twice, where
  \<^verbatim>\<open>discover_automatic\<close> records it once.
\<close>

theorem discover_arp_cache_duplicates:
  "map ip_address (hosts (snd (discover_arp_cache two_interface_world initial_state))) =
     [''192.168.1.1'', ''192.168.1.1'']
   \<and> map ip_address (hosts (snd (discover_efficient two_interface_world initial_state))) =
     [''192.168.1.1'', ''192.168.1.1'']
   \<and> map ip_address (hosts (snd (discover_automatic two_interface_world initial_state))) =
     [''192.168.1.1'']"
  by code_simp

section \<open>The bound on the registry\<close>

lemma fgets_take_line:
  "newline \<notin> set body \<Longrightarrow> length body < k \<Longrightarrow>
   fgets_take k (body @ newline # rest) = (body @ [newline], rest)"
proof (induction body arbitrary: k)
  case Nil
  then show ?case by (cases k) simp_all
next
  case (Cons c cs)
  then obtain j where k: "k = Suc j" by (cases k) auto
  show ?case using Cons k by auto
qed

lemma fgets_all_lines:
  assumes "\<And>i. i \<in> set is \<Longrightarrow> \<exists>body. f i = body @ [newline] \<and> newline \<notin> set body \<and> length body < 511"
  shows "fgets_all 512 (concat (map f is)) = map f is"
  using assms
proof (induction "is")
  case Nil
  then show ?case by (subst fgets_all.simps) simp
next
  case (Cons i "is")
  obtain body where b: "f i = body @ [newline]" "newline \<notin> set body" "length body < 511"
    using Cons.prems [of i] by auto
  have ft: "fgets_take 511 (f i @ concat (map f is)) = (f i, concat (map f is))"
    using fgets_take_line [OF b(2,3), of "concat (map f is)"] b(1) by simp
  have ih: "fgets_all 512 (concat (map f is)) = map f is"
    by (rule Cons.IH) (use Cons.prems in auto)
  show ?case
    using b(1) ft ih by (subst fgets_all.simps) simp
qed

lemma sscanf_Str_token:
  assumes "tok \<noteq> []" "list_all (\<lambda>c. \<not> isspace c) tok" "length tok \<le> n"
    and "rest \<noteq> []" "isspace (hd rest)"
  shows "sscanf (Str n # fs) (tok @ rest) = SStr tok # sscanf fs rest"
proof -
  have h: "\<not> isspace (hd tok)" using assms(1,2) by (cases tok) auto
  have d: "dropWhile isspace (tok @ rest) = tok @ rest"
    using assms(1) h by (cases tok) auto
  have t: "takeWhile (\<lambda>c. \<not> isspace c) (tok @ rest) = tok"
    using assms(2,4,5) by (cases rest) (auto simp: list_all_iff takeWhile_append2 intro: takeWhile_eq_all_conv [THEN iffD2])
  have n0: "0 < n" using assms(1,3) by (cases tok) auto
  show ?thesis using d t assms(1,3) n0 by (simp add: Let_def)
qed

lemma neighbour_tail_scan:
  "sscanf (tl arp_neigh_format) neighbour_tail =
     [SStr ''eth0'', SStr ''aa:bb:cc:dd:ee:ff'', SStr ''REACHABLE'']"
  by code_simp

lemma neighbour_ip_dotted:
  "i < 1024 \<Longrightarrow> neighbour_ip i = dotted 10 0 (i div 256) (i mod 256)"
  unfolding neighbour_ip_def dotted_quad_def prod.case
  by (subst snprintf_quad_dotted) simp_all

lemma neighbour_ip_valid: "i < 1024 \<Longrightarrow> validate_ip_string (Some (neighbour_ip i)) = 1"
  by (simp add: neighbour_ip_dotted validate_dotted)

lemma neighbour_ip_length: "i < 1024 \<Longrightarrow> length (neighbour_ip i) \<le> 15"
  by (simp add: neighbour_ip_def dotted_quad_def snprintf_quad_def MAX_IP_LEN_def)

lemma valid_char_plain: "is_digit c \<or> c = CHR ''.'' \<Longrightarrow> \<not> isspace c \<and> c \<noteq> newline"
  by (auto simp: is_digit_def isspace_def newline_def)

lemma neighbour_ip_chars:
  assumes "i < 1024"
  shows "neighbour_ip i \<noteq> []" "list_all (\<lambda>c. \<not> isspace c) (neighbour_ip i)"
    "newline \<notin> set (neighbour_ip i)"
proof -
  have v: "neighbour_ip i \<noteq> [] \<and> list_all (\<lambda>c. is_digit c \<or> c = CHR ''.'') (neighbour_ip i)"
    using neighbour_ip_valid [OF assms] by (simp add: validate_ip_string_Some split: if_splits)
  show "neighbour_ip i \<noteq> []" using v by simp
  show "list_all (\<lambda>c. \<not> isspace c) (neighbour_ip i)"
    using v valid_char_plain by (auto simp: list_all_iff)
  show "newline \<notin> set (neighbour_ip i)"
    using v valid_char_plain by (auto simp: list_all_iff)
qed

lemma neighbour_tail_facts:
  "neighbour_tail \<noteq> []" "isspace (hd neighbour_tail)"
  "neighbour_tail = butlast neighbour_tail @ [newline]" "newline \<notin> set (butlast neighbour_tail)"
  "length neighbour_tail = 45"
  by (simp_all add: neighbour_tail_def isspace_def newline_def)

lemma arp_line_neighbour:
  assumes "i < 1024"
  shows "fst (arp_line [] (neighbour_line i)) = Some (neighbour_ip i)"
proof -
  have f: "arp_neigh_format = Str 15 # tl arp_neigh_format" by (simp add: arp_neigh_format_def)
  have "sscanf (Str 15 # tl arp_neigh_format) (neighbour_ip i @ neighbour_tail) =
        SStr (neighbour_ip i) # sscanf (tl arp_neigh_format) neighbour_tail"
    by (rule sscanf_Str_token)
       (use neighbour_ip_chars [OF assms] neighbour_ip_length [OF assms] neighbour_tail_facts in auto)
  then have s: "sscanf arp_neigh_format (neighbour_line i) =
     [SStr (neighbour_ip i), SStr ''eth0'', SStr ''aa:bb:cc:dd:ee:ff'', SStr ''REACHABLE'']"
    using f by (simp add: neighbour_line_def neighbour_tail_scan)
  show ?thesis
    unfolding arp_line_def s using neighbour_ip_valid [OF assms] by simp
qed

lemma neighbour_line_shape:
  assumes "i < 1024"
  shows "\<exists>body. neighbour_line i = body @ [newline] \<and> newline \<notin> set body \<and> length body < 511"
proof -
  let ?body = "neighbour_ip i @ butlast neighbour_tail"
  have "neighbour_line i = ?body @ [newline]"
    using neighbour_tail_facts(3) by (simp add: neighbour_line_def)
  moreover have "newline \<notin> set ?body"
    using neighbour_ip_chars(3) [OF assms] neighbour_tail_facts(4) by simp
  moreover have "length ?body < 511"
    using neighbour_ip_length [OF assms] neighbour_tail_facts(5) by simp
  ultimately show ?thesis by blast
qed

lemma arp_cache_loop_fill:
  assumes "\<And>i. i \<in> set is \<Longrightarrow> fst (arp_line [] (f i)) = Some (g i)"
  shows "map ip_address (hosts (arp_cache_loop (map f is) st)) =
           map ip_address (hosts st) @
           map (\<lambda>i. take (MAX_IP_LEN - 1) (g i))
             (take (MAX_DISCOVERED_HOSTS - length (hosts st)) is)
         \<and> cmds (arp_cache_loop (map f is) st) = cmds st"
  using assms
proof (induction "is" arbitrary: st)
  case Nil
  then show ?case by simp
next
  case (Cons i "is")
  show ?case
  proof (cases "discovered_count st < MAX_DISCOVERED_HOSTS")
    case False
    then show ?thesis by (simp add: discovered_count_def)
  next
    case True
    have a: "fst (arp_line [] (f i)) = Some (g i)" using Cons.prems by simp
    have ih: "map ip_address (hosts (arp_cache_loop (map f is) (store_host (g i) 0 st))) =
           map ip_address (hosts (store_host (g i) 0 st)) @
           map (\<lambda>i. take (MAX_IP_LEN - 1) (g i))
             (take (MAX_DISCOVERED_HOSTS - length (hosts (store_host (g i) 0 st))) is)
         \<and> cmds (arp_cache_loop (map f is) (store_host (g i) 0 st)) = cmds (store_host (g i) 0 st)"
      by (rule Cons.IH) (use Cons.prems in auto)
    have t: "take (MAX_DISCOVERED_HOSTS - length (hosts st)) (i # is) =
             i # take (MAX_DISCOVERED_HOSTS - length (hosts st) - 1) is"
      using True by (cases "MAX_DISCOVERED_HOSTS - length (hosts st)")
        (auto simp: discovered_count_def)
    show ?thesis
      using True a ih unfolding t by (simp add: store_host_def)
  qed
qed

lemma gateway_line:
  "strip_newline (fst (fgets_take (MAX_IP_LEN - Suc 0) gateway_reply)) = ''192.168.1.254''"
  by code_simp

lemma gateway_reply_nonempty: "gateway_reply \<noteq> []"
  by (simp add: gateway_reply_def)

lemma gateway_valid: "validate_ip_string (Some ''192.168.1.254'') = 1"
  by (simp add: validate_ip_string_def is_digit_def)

lemma gateway_octets: "parse_ip silent_world ''192.168.1.254'' = (192, 168, 1, 254)"
  by code_simp

lemma command_distinct:
  "conn_command \<noteq> arp_command" "route_command \<noteq> arp_command" "conn_command \<noteq> route_command"
  by (simp_all add: conn_command_def arp_command_def route_command_def)

lemma neighbour_not_gateway: "i < 1024 \<Longrightarrow> neighbour_ip i \<noteq> ''192.168.1.254''"
proof
  assume i: "i < 1024" and e: "neighbour_ip i = ''192.168.1.254''"
  have "parse_ip silent_world (neighbour_ip i) = (10, 0, int (i div 256), int (i mod 256))"
    unfolding neighbour_ip_def dotted_quad_def prod.case
    by (rule parse_ip_quad) (use i in simp_all)
  then show False unfolding e gateway_octets by simp
qed

lemma crowded_arp:
  "map ip_address (hosts (snd (discover_arp_cache crowded_world st))) =
     map neighbour_ip [0..<1024]
   \<and> cmds (snd (discover_arp_cache crowded_world st)) = cmds st @ [arp_command]"
proof -
  have fg: "fgets_all 512 (concat (map neighbour_line [0..<1024])) = map neighbour_line [0..<1024]"
    by (rule fgets_all_lines) (use neighbour_line_shape in simp)
  let ?st1 = "st\<lparr>hosts := [], cmds := cmds st @ [arp_command]\<rparr>"
  have fill: "map ip_address (hosts (arp_cache_loop (map neighbour_line [0..<1024]) ?st1)) =
           map ip_address (hosts ?st1) @
           map (\<lambda>i. take (MAX_IP_LEN - 1) (neighbour_ip i))
             (take (MAX_DISCOVERED_HOSTS - length (hosts ?st1)) [0..<1024])
         \<and> cmds (arp_cache_loop (map neighbour_line [0..<1024]) ?st1) = cmds ?st1"
    by (rule arp_cache_loop_fill) (use arp_line_neighbour in simp)
  have tk: "map (\<lambda>i. take (MAX_IP_LEN - 1) (neighbour_ip i)) [0..<1024] = map neighbour_ip [0..<1024]"
    by (rule map_cong) (use neighbour_ip_length in \<open>auto simp: MAX_IP_LEN_def\<close>)
  have po: "popen crowded_world (length (cmds st)) arp_command =
            Some (concat (map neighbour_line [0..<1024]))"
    by (simp add: crowded_world_def)
  show ?thesis
    using fill tk
    by (simp add: discover_arp_cache_def run_popen_def po fg Let_def MAX_DISCOVERED_HOSTS_def)
qed

text \<open>
  C9 fails in \<^verbatim>\<open>discover_efficient\<close>: its last step stores the default gateway after
  the duplicate check only (lines 962 to 969), where the other collectors also test
  \<^verbatim>\<open>discovered_count < MAX_DISCOVERED_HOSTS\<close>.  With 1024 neighbours in the table and a
  gateway that is not one of them, the gateway is written to slot 1024 of an array of 1024
  and the count becomes 1025.
\<close>

theorem discover_efficient_exceeds_cap:
  "fst (discover_efficient crowded_world initial_state) = 1025
   \<and> discovered_count (snd (discover_efficient crowded_world initial_state)) = 1025
   \<and> \<not> discovered_count (snd (discover_efficient crowded_world initial_state))
         \<le> MAX_DISCOVERED_HOSTS
   \<and> map ip_address (hosts (snd (discover_efficient crowded_world initial_state))) =
       map neighbour_ip [0..<1024] @ [''192.168.1.254'']"
proof -
  let ?st1 = "snd (discover_arp_cache crowded_world (initial_state\<lparr>hosts := []\<rparr>))"
  let ?st2 = "efficient_connections crowded_world ?st1"
  let ?st3 = "efficient_gateway crowded_world ?st2"
  note a = crowded_arp [of "initial_state\<lparr>hosts := []\<rparr>"]
  have c2: "?st2 = ?st1\<lparr>cmds := cmds ?st1 @ [conn_command]\<rparr>"
    by (simp add: efficient_connections_def run_popen_def crowded_world_def command_distinct)
  have h2: "map ip_address (hosts ?st2) = map neighbour_ip [0..<1024]"
    unfolding c2 using a by simp
  have nf: "\<not> already_found (hosts ?st2) ''192.168.1.254''"
  proof
    assume "already_found (hosts ?st2) ''192.168.1.254''"
    then have "''192.168.1.254'' \<in> set (map neighbour_ip [0..<1024])"
      unfolding already_found_iff h2 .
    then obtain i where "i < 1024" "neighbour_ip i = ''192.168.1.254''" by auto
    then show False using neighbour_not_gateway by blast
  qed
  have po: "popen crowded_world (length (cmds ?st2)) route_command =
            Some gateway_reply"
    using command_distinct by (simp add: crowded_world_def)
  have s3: "?st3 = store_host ''192.168.1.254'' 0 (?st2\<lparr>cmds := cmds ?st2 @ [route_command]\<rparr>)"
    unfolding efficient_gateway_def run_popen_def po
    using nf by (simp add: gateway_line gateway_valid gateway_reply_nonempty Let_def)
  have h3: "map ip_address (hosts ?st3) = map neighbour_ip [0..<1024] @ [''192.168.1.254'']"
    unfolding s3 using h2 by (simp add: store_host_def MAX_IP_LEN_def)
  have l3: "length (hosts ?st3) = 1025"
    using arg_cong [OF h3, of length] by simp
  have de: "discover_efficient crowded_world initial_state = (int (discovered_count ?st3), ?st3)"
    by (simp add: discover_efficient_def Let_def)
  show ?thesis
    unfolding de using h3 l3 by (simp add: discovered_count_def MAX_DISCOVERED_HOSTS_def)
qed

section \<open>The walk over the routers\<close>

lemma queried_routers_append [simp]:
  "queried_routers (xs @ ys) = queried_routers xs @ queried_routers ys"
  by (induction xs) (auto split: event.splits)

lemma printed_run_popen [simp]: "printed (snd (run_popen w c st)) = printed st"
  by (simp add: run_popen_def)

lemma printed_snmp_arp_loop [simp]: "printed (snd (snmp_arp_loop ls acc)) = printed (snd acc)"
  by (induction ls acc rule: snmp_arp_loop.induct) (auto split: option.splits)

lemma printed_try_snmp [simp]: "printed (snd (try_snmp_community w r c st)) = printed st"
  by (simp add: try_snmp_community_def run_popen_def split: option.splits)

lemma printed_nexthop [simp]: "printed (snd (discover_nexthop_routers w r c m st)) = printed st"
  by (simp add: discover_nexthop_routers_def run_popen_def split: option.splits)

lemma printed_interfaces [simp]: "printed (snd (discover_router_interfaces w r c m st)) = printed st"
  by (simp add: discover_router_interfaces_def run_popen_def split: option.splits)

lemma printed_add_interfaces [simp]: "printed (add_interfaces xs st) = printed st"
  by (induction xs st rule: add_interfaces.induct) auto

lemma printed_add_nexthops [simp]: "printed (snd (add_nexthops nhs acc)) = printed (snd acc)"
  by (induction nhs acc rule: add_nexthops.induct) auto

lemma printed_arp_dedup_loop [simp]: "printed (arp_dedup_loop ls sb st) = printed st"
  by (induction ls sb st rule: arp_dedup_loop.induct) (auto split: option.splits prod.splits)

lemma printed_conn_loop [simp]: "printed (conn_loop ls st) = printed st"
  by (induction ls st rule: conn_loop.induct) (auto split: option.splits)

lemma printed_automatic_arp [simp]: "printed (automatic_arp w st) = printed st"
  by (simp add: automatic_arp_def run_popen_def split: option.splits)

lemma printed_efficient_connections [simp]: "printed (efficient_connections w st) = printed st"
  by (simp add: efficient_connections_def run_popen_def split: option.splits)

lemma printed_try_communities:
  "printed (snd (snd (try_communities w r cs acc))) = printed (snd acc)"
proof (induction w r cs acc rule: try_communities.induct)
  case (1 w r acc)
  then show ?case by simp
next
  case (2 w r c cs acc)
  obtain ifs st1 where i: "discover_router_interfaces w r c (int MAX_HOPS) (snd acc) = (ifs, st1)"
    by (cases "discover_router_interfaces w r c (int MAX_HOPS) (snd acc)")
  have p1: "printed st1 = printed (snd acc)"
    using printed_interfaces [of w r c "int MAX_HOPS" "snd acc"] i by simp
  show ?case
  proof (cases "length ifs > 0")
    case False
    then show ?thesis using "2.IH" [OF i [symmetric]] i p1 by simp
  next
    case True
    obtain nhs st3 where n: "discover_nexthop_routers w r c (int MAX_HOPS) (add_interfaces ifs st1) = (nhs, st3)"
      by (cases "discover_nexthop_routers w r c (int MAX_HOPS) (add_interfaces ifs st1)")
    have p3: "printed st3 = printed st1"
      using printed_nexthop [of w r c "int MAX_HOPS" "add_interfaces ifs st1"] n by simp
    obtain rs st4 where a: "add_nexthops nhs (fst acc, st3) = (rs, st4)"
      by (cases "add_nexthops nhs (fst acc, st3)")
    have p4: "printed st4 = printed st3"
      using printed_add_nexthops [of nhs "(fst acc, st3)"] a by simp
    show ?thesis using True i n a p1 p3 p4 by simp
  qed
qed

lemma snmp_line_ip_short: "snmp_line_ip l = Some ip \<Longrightarrow> short ip"
  by (auto simp: snmp_line_ip_def short_def MAX_IP_LEN_def Let_def
      split: option.splits list.splits sval.splits if_splits)

lemma short_take: "short ip \<Longrightarrow> take (MAX_IP_LEN - 1) ip = ip"
  by (simp add: short_def)

lemma nexthop_loop_step:
  "nexthop_loop w r m (l # ls) acc = acc
   \<or> nexthop_loop w r m (l # ls) acc = nexthop_loop w r m ls acc
   \<or> (\<exists>ip. snmp_line_ip l = Some ip \<and> ip \<noteq> ''0.0.0.0'' \<and> is_private (parse_ip w ip) \<and> ip \<noteq> r
         \<and> nexthop_loop w r m (l # ls) acc =
             nexthop_loop w r m ls (acc @ [take (MAX_IP_LEN - 1) ip]))"
  by (cases "snmp_line_ip l") auto

lemma nexthop_loop_inv:
  assumes "list_all (\<lambda>ip. nexthop_ok w ip \<and> ip \<noteq> r \<and> short ip) acc"
  shows "list_all (\<lambda>ip. nexthop_ok w ip \<and> ip \<noteq> r \<and> short ip) (nexthop_loop w r m ls acc)"
  using assms
proof (induction ls arbitrary: acc)
  case Nil
  then show ?case by simp
next
  case (Cons l ls)
  consider (stop) "nexthop_loop w r m (l # ls) acc = acc"
    | (skip) "nexthop_loop w r m (l # ls) acc = nexthop_loop w r m ls acc"
    | (add) ip where "snmp_line_ip l = Some ip" "ip \<noteq> ''0.0.0.0''" "is_private (parse_ip w ip)"
        "ip \<noteq> r"
        "nexthop_loop w r m (l # ls) acc = nexthop_loop w r m ls (acc @ [take (MAX_IP_LEN - 1) ip])"
    using nexthop_loop_step [of w r m l ls acc] by blast
  then show ?case
  proof cases
    case stop
    then show ?thesis using Cons.prems by simp
  next
    case skip
    then show ?thesis using Cons.IH [OF Cons.prems] by simp
  next
    case add
    have s: "short ip" using add(1) by (rule snmp_line_ip_short)
    have t: "take (MAX_IP_LEN - 1) ip = ip" using s by (rule short_take)
    have "list_all (\<lambda>ip. nexthop_ok w ip \<and> ip \<noteq> r \<and> short ip) (acc @ [ip])"
      using Cons.prems add(2,3,4) s by (simp add: nexthop_ok_def)
    then show ?thesis unfolding add(5) t by (rule Cons.IH)
  qed
qed

lemma discover_nexthop_routers_inv:
  "list_all (\<lambda>ip. nexthop_ok w ip \<and> ip \<noteq> r \<and> short ip)
     (fst (discover_nexthop_routers w r c m st))"
  by (simp add: discover_nexthop_routers_def nexthop_loop_inv split: option.splits prod.splits)

lemma add_nexthops_frontier:
  assumes "list_all (\<lambda>ip. nexthop_ok w ip \<and> short ip) nhs"
    and "distinct (fst acc)" "length (fst acc) \<le> MAX_HOPS"
  shows "\<exists>extra. fst (add_nexthops nhs acc) = fst acc @ extra
           \<and> list_all (nexthop_ok w) extra
           \<and> distinct (fst acc @ extra) \<and> length (fst acc @ extra) \<le> MAX_HOPS"
  using assms
proof (induction nhs acc rule: add_nexthops.induct)
  case (1 acc)
  then show ?case by simp
next
  case (2 nh nhs acc)
  let ?rs = "if \<not> in_list (fst acc) nh \<and> length (fst acc) < MAX_HOPS
        then fst acc @ [take (MAX_IP_LEN - 1) nh] else fst acc"
  let ?st = "if \<not> already_found (hosts (snd acc)) nh \<and> discovered_count (snd acc) < MAX_DISCOVERED_HOSTS
        then store_host nh 0 (snd acc) else snd acc"
  have nh1: "nexthop_ok w nh" and sh: "short nh"
    and rest: "list_all (\<lambda>ip. nexthop_ok w ip \<and> short ip) nhs"
    using "2.prems"(1) by simp_all
  have nh2: "take (MAX_IP_LEN - 1) nh = nh" using sh by (rule short_take)
  note nh = nh1 nh2
  have d: "distinct ?rs" using "2.prems"(2) nh(2) by (simp add: in_list_iff)
  have l: "length ?rs \<le> MAX_HOPS" using "2.prems"(3) by simp
  have "\<exists>extra. fst (add_nexthops nhs (?rs, ?st)) = fst (?rs, ?st) @ extra
           \<and> list_all (nexthop_ok w) extra
           \<and> distinct (fst (?rs, ?st) @ extra) \<and> length (fst (?rs, ?st) @ extra) \<le> MAX_HOPS"
    by (rule "2.IH") (use rest d l in simp_all)
  then obtain extra where e: "fst (add_nexthops nhs (?rs, ?st)) = ?rs @ extra"
      "list_all (nexthop_ok w) extra" "distinct (?rs @ extra)" "length (?rs @ extra) \<le> MAX_HOPS"
    by auto
  show ?case
  proof (cases "\<not> in_list (fst acc) nh \<and> length (fst acc) < MAX_HOPS")
    case True
    show ?thesis
      apply (rule exI [of _ "nh # extra"])
      using e True nh by simp
  next
    case False
    show ?thesis
      apply (rule exI [of _ extra])
      using e False by auto
  qed
qed

lemma cmds_add_interfaces [simp]: "cmds (add_interfaces xs st) = cmds st"
  by (induction xs st rule: add_interfaces.induct) auto

lemma cmds_add_nexthops [simp]: "cmds (snd (add_nexthops nhs acc)) = cmds (snd acc)"
  by (induction nhs acc rule: add_nexthops.induct) auto

lemma interfaces_cmds:
  assumes c: "c \<in> set communities"
  shows "\<exists>cs. cmds (snd (discover_router_interfaces w r c m st)) = cmds st @ cs
        \<and> list_all (addressed_to r) cs"
proof (cases "validate_ip_string (Some r) = 0 \<or> validate_community_string (Some c) = 0")
  case True
  then have "discover_router_interfaces w r c m st = ([], st)"
    by (simp add: discover_router_interfaces_def)
  then show ?thesis by simp
next
  case False
  then have "cmds (snd (discover_router_interfaces w r c m st)) =
     cmds st @ [snmpwalk_command c r ''1.3.6.1.2.1.4.20.1.1'']"
    by (simp add: discover_router_interfaces_def run_popen_def split: option.splits)
  moreover have "addressed_to r (snmpwalk_command c r ''1.3.6.1.2.1.4.20.1.1'')"
    unfolding addressed_to_def snmp_oids_def using c by auto
  ultimately show ?thesis by simp
qed

lemma nexthop_cmds:
  assumes c: "c \<in> set communities"
  shows "\<exists>cs. cmds (snd (discover_nexthop_routers w r c m st)) = cmds st @ cs
        \<and> list_all (addressed_to r) cs"
proof (cases "validate_ip_string (Some r) = 0 \<or> validate_community_string (Some c) = 0")
  case True
  then have "discover_nexthop_routers w r c m st = ([], st)"
    by (simp add: discover_nexthop_routers_def)
  then show ?thesis by simp
next
  case False
  then have "cmds (snd (discover_nexthop_routers w r c m st)) =
     cmds st @ [snmpwalk_command c r ''1.3.6.1.2.1.4.21.1.7'']"
    by (simp add: discover_nexthop_routers_def run_popen_def split: option.splits)
  moreover have "addressed_to r (snmpwalk_command c r ''1.3.6.1.2.1.4.21.1.7'')"
    unfolding addressed_to_def snmp_oids_def using c by auto
  ultimately show ?thesis by simp
qed

lemma try_snmp_cmds:
  assumes c: "c \<in> set communities"
  shows "\<exists>cs. cmds (snd (try_snmp_community w r c st)) = cmds st @ cs
        \<and> list_all (addressed_to r) cs"
proof (cases "validate_ip_string (Some r) = 0 \<or> validate_community_string (Some c) = 0")
  case True
  then have "try_snmp_community w r c st = (0, st)"
    by (auto simp: try_snmp_community_def)
  then show ?thesis by simp
next
  case False
  then have "cmds (snd (try_snmp_community w r c st)) =
     cmds st @ [snmpwalk_command c r ''1.3.6.1.2.1.4.22.1.3'']"
    by (simp add: try_snmp_community_def run_popen_def split: option.splits)
  moreover have "addressed_to r (snmpwalk_command c r ''1.3.6.1.2.1.4.22.1.3'')"
    unfolding addressed_to_def snmp_oids_def using c by auto
  ultimately show ?thesis by simp
qed

lemma try_communities_frontier:
  assumes "distinct (fst acc)" "length (fst acc) \<le> MAX_HOPS" "set comms \<subseteq> set communities"
  shows "\<exists>extra cs. fst (snd (try_communities w r comms acc)) = fst acc @ extra
           \<and> list_all (nexthop_ok w) extra
           \<and> distinct (fst acc @ extra) \<and> length (fst acc @ extra) \<le> MAX_HOPS
           \<and> cmds (snd (snd (try_communities w r comms acc))) = cmds (snd acc) @ cs
           \<and> list_all (addressed_to r) cs"
  using assms
proof (induction w r comms acc rule: try_communities.induct)
  case (1 w r acc)
  show ?case
    apply (rule exI [of _ "[]"])
    apply (rule exI [of _ "[]"])
    using 1 by simp
next
  case (2 w r c cs acc)
  have cin: "c \<in> set communities" and csub: "set cs \<subseteq> set communities"
    using "2.prems"(3) by simp_all
  obtain ifs st1 where i: "discover_router_interfaces w r c (int MAX_HOPS) (snd acc) = (ifs, st1)"
    by (cases "discover_router_interfaces w r c (int MAX_HOPS) (snd acc)")
  obtain c1 where c1: "cmds st1 = cmds (snd acc) @ c1" "list_all (addressed_to r) c1"
    using interfaces_cmds [of c w r "int MAX_HOPS" "snd acc"] i cin by auto
  show ?case
  proof (cases "length ifs > 0")
    case False
    have "\<exists>extra cs'. fst (snd (try_communities w r cs (fst acc, st1))) = fst (fst acc, st1) @ extra
           \<and> list_all (nexthop_ok w) extra
           \<and> distinct (fst (fst acc, st1) @ extra) \<and> length (fst (fst acc, st1) @ extra) \<le> MAX_HOPS
           \<and> cmds (snd (snd (try_communities w r cs (fst acc, st1)))) = cmds (snd (fst acc, st1)) @ cs'
           \<and> list_all (addressed_to r) cs'"
      by (rule "2.IH" [OF i [symmetric]]) (use False "2.prems"(1,2) csub in simp_all)
    then obtain extra cs' where e: "fst (snd (try_communities w r cs (fst acc, st1))) = fst acc @ extra"
        "list_all (nexthop_ok w) extra" "distinct (fst acc @ extra)"
        "length (fst acc @ extra) \<le> MAX_HOPS"
        "cmds (snd (snd (try_communities w r cs (fst acc, st1)))) = cmds st1 @ cs'"
        "list_all (addressed_to r) cs'"
      by auto
    show ?thesis
      apply (rule exI [of _ extra])
      apply (rule exI [of _ "c1 @ cs'"])
      using False i e c1 by simp
  next
    case True
    let ?st2 = "add_interfaces ifs st1"
    obtain nhs st3 where n: "discover_nexthop_routers w r c (int MAX_HOPS) ?st2 = (nhs, st3)"
      by (cases "discover_nexthop_routers w r c (int MAX_HOPS) ?st2")
    obtain c3 where c3: "cmds st3 = cmds ?st2 @ c3" "list_all (addressed_to r) c3"
      using nexthop_cmds [of c w r "int MAX_HOPS" ?st2] n cin by auto
    have "list_all (\<lambda>ip. nexthop_ok w ip \<and> ip \<noteq> r \<and> short ip) nhs"
      using discover_nexthop_routers_inv [of w r c "int MAX_HOPS" ?st2] n by simp
    then have vn: "list_all (\<lambda>ip. nexthop_ok w ip \<and> short ip) nhs"
      by (simp add: list_all_iff)
    obtain rs st4 where a: "add_nexthops nhs (fst acc, st3) = (rs, st4)"
      by (cases "add_nexthops nhs (fst acc, st3)")
    have "\<exists>extra. fst (add_nexthops nhs (fst acc, st3)) = fst (fst acc, st3) @ extra
           \<and> list_all (nexthop_ok w) extra
           \<and> distinct (fst (fst acc, st3) @ extra) \<and> length (fst (fst acc, st3) @ extra) \<le> MAX_HOPS"
      by (rule add_nexthops_frontier [OF vn]) (use "2.prems"(1,2) in simp_all)
    then obtain extra where e: "rs = fst acc @ extra" "list_all (nexthop_ok w) extra"
        "distinct (fst acc @ extra)" "length (fst acc @ extra) \<le> MAX_HOPS"
      using a by auto
    have c4: "cmds st4 = cmds st3" using cmds_add_nexthops [of nhs "(fst acc, st3)"] a by simp
    obtain c5 where c5: "cmds (snd (try_snmp_community w r c st4)) = cmds st4 @ c5"
        "list_all (addressed_to r) c5"
      using try_snmp_cmds [of c w r st4] cin by auto
    show ?thesis
      apply (rule exI [of _ extra])
      apply (rule exI [of _ "c1 @ c3 @ c5"])
      using True i n a e c1 c3 c4 c5 by simp
  qed
qed

lemma visit_router_ok:
  assumes ok: "walk_ok w base k" and cm: "walk_cmds cbase k"
    and lt: "routers_queried k < length (routers_to_query k)"
  shows "walk_ok w base (visit_router w k) \<and> walk_cmds cbase (visit_router w k)"
proof -
  let ?r = "routers_to_query k ! routers_queried k"
  let ?e = "QueryingRouter (int (routers_queried k) + 1) ?r"
  let ?acc = "(routers_to_query k, printf ?e (walk_state k))"
  from ok have d: "distinct (routers_to_query k)" and l: "length (routers_to_query k) \<le> MAX_HOPS"
    and t: "list_all (nexthop_ok w) (tl (routers_to_query k))"
    and p: "queried_routers (printed (walk_state k)) =
              base @ take (routers_queried k) (routers_to_query k)"
    by (simp_all add: walk_ok_def)
  from cm obtain qs where q: "cmds (walk_state k) = cbase @ concat qs"
      "list_all2 (\<lambda>r q. list_all (addressed_to r) q)
         (take (routers_queried k) (routers_to_query k)) qs"
    unfolding walk_cmds_def by blast
  have "\<exists>extra cs. fst (snd (try_communities w ?r communities ?acc)) = fst ?acc @ extra
           \<and> list_all (nexthop_ok w) extra
           \<and> distinct (fst ?acc @ extra) \<and> length (fst ?acc @ extra) \<le> MAX_HOPS
           \<and> cmds (snd (snd (try_communities w ?r communities ?acc))) = cmds (snd ?acc) @ cs
           \<and> list_all (addressed_to ?r) cs"
    by (rule try_communities_frontier) (use d l in simp_all)
  then obtain extra cs where e:
      "fst (snd (try_communities w ?r communities ?acc)) = routers_to_query k @ extra"
      "list_all (nexthop_ok w) extra" "distinct (routers_to_query k @ extra)"
      "length (routers_to_query k @ extra) \<le> MAX_HOPS"
      "cmds (snd (snd (try_communities w ?r communities ?acc))) = cmds (snd ?acc) @ cs"
      "list_all (addressed_to ?r) cs"
    by auto
  obtain f rs st' where tc: "try_communities w ?r communities ?acc = (f, rs, st')"
    by (cases "try_communities w ?r communities ?acc") auto
  have rs: "rs = routers_to_query k @ extra" using e(1) tc by simp
  have pr: "printed st' = printed (walk_state k) @ [?e]"
    using printed_try_communities [of w ?r communities ?acc] tc by (simp add: printf_def)
  have cs: "cmds st' = cmds (walk_state k) @ cs" using e(5) tc by (simp add: printf_def)
  have v: "visit_router w k =
      \<lparr>routers_queried = routers_queried k + 1, routers_to_query = rs,
       snmp_success = (snmp_success k \<or> f), walk_state = st'\<rparr>"
    by (simp add: visit_router_def tc)
  have ne: "routers_to_query k \<noteq> []" using lt by auto
  have tk: "take (routers_queried k + 1) rs = take (routers_queried k) (routers_to_query k) @ [?r]"
    using lt by (simp add: rs take_Suc_conv_app_nth)
  have a: "walk_ok w base (visit_router w k)"
    unfolding walk_ok_def v using e(2,3,4) t lt ne p pr tk by (simp add: rs)
  have "list_all2 (\<lambda>r q. list_all (addressed_to r) q)
          (take (routers_queried k) (routers_to_query k) @ [?r]) (qs @ [cs])"
    by (rule list_all2_appendI) (use q(2) e(6) in simp_all)
  moreover have "cmds st' = cbase @ concat (qs @ [cs])" using cs q(1) by simp
  ultimately have b: "walk_cmds cbase (visit_router w k)"
    unfolding walk_cmds_def v using tk by (intro exI [of _ "qs @ [cs]"]) simp
  from a b show ?thesis by simp
qed

lemma router_walk_ok:
  "walk_ok w base k \<Longrightarrow> walk_cmds cbase k \<Longrightarrow>
     walk_ok w base (router_walk w k) \<and> walk_cmds cbase (router_walk w k)"
proof (induction w k rule: router_walk.induct)
  case (1 w k)
  show ?case
  proof (cases "routers_queried k < length (routers_to_query k) \<and> routers_queried k < MAX_HOPS")
    case True
    then have v: "walk_ok w base (visit_router w k) \<and> walk_cmds cbase (visit_router w k)"
      using visit_router_ok [OF "1.prems"] by simp
    have "router_walk w k = router_walk w (visit_router w k)"
      by (subst router_walk.simps) (simp only: True if_True simp_thms)
    then show ?thesis using "1.IH" [OF True] v by simp
  next
    case False
    have "router_walk w k = k"
      by (subst router_walk.simps) (simp only: False if_False simp_thms)
    then show ?thesis using "1.prems" by simp
  qed
qed

lemma router_walk_exit:
  "\<not> (routers_queried (router_walk w k) < length (routers_to_query (router_walk w k))
      \<and> routers_queried (router_walk w k) < MAX_HOPS)"
proof (induction w k rule: router_walk.induct)
  case (1 w k)
  show ?case
  proof (cases "routers_queried k < length (routers_to_query k) \<and> routers_queried k < MAX_HOPS")
    case True
    have "router_walk w k = router_walk w (visit_router w k)"
      by (subst router_walk.simps) (simp only: True if_True simp_thms)
    then show ?thesis using "1.IH" [OF True] by simp
  next
    case False
    have "router_walk w k = k"
      by (subst router_walk.simps) (simp only: False if_False simp_thms)
    then show ?thesis using False by simp
  qed
qed

lemma walk_ok_all_queried:
  assumes "walk_ok w base (router_walk w k)"
  shows "routers_queried (router_walk w k) = length (routers_to_query (router_walk w k))"
  using assms router_walk_exit [of w k] by (auto simp: walk_ok_def)

lemma automatic_snmp_ok:
  "walk_ok w (queried_routers (printed st)) (automatic_snmp w st)
   \<and> walk_cmds (cmds st @ [route_command]) (automatic_snmp w st)
   \<and> routers_queried (automatic_snmp w st) = length (routers_to_query (automatic_snmp w st))"
proof -
  obtain ok buf st1 where g: "get_default_gateway w (st\<lparr>hosts := []\<rparr>) = ((ok, buf), st1)"
    by (cases "get_default_gateway w (st\<lparr>hosts := []\<rparr>)") auto
  have c1: "cmds st1 = cmds st @ [route_command]" and p1: "printed st1 = printed st"
    using g by (auto simp: get_default_gateway_def run_popen_def Let_def split: option.splits if_splits)
  let ?e = "\<lparr>routers_queried = 0, routers_to_query = [], snmp_success = False, walk_state = st1\<rparr>"
  have e: "walk_ok w (queried_routers (printed st)) ?e \<and> walk_cmds (cmds st @ [route_command]) ?e
           \<and> routers_queried ?e = length (routers_to_query ?e)"
    by (simp add: walk_ok_def walk_cmds_def c1 p1)
  show ?thesis
  proof (cases "\<exists>gateway. buf = Some gateway \<and> ok \<noteq> 0")
    case False
    then have "automatic_snmp w st = ?e"
      by (auto simp: automatic_snmp_def g split: option.splits)
    then show ?thesis using e by simp
  next
    case True
    then obtain gateway where b: "buf = Some gateway" "ok \<noteq> 0" by blast
    let ?k = "\<lparr>routers_queried = 0, routers_to_query = [take (MAX_IP_LEN - 1) gateway],
               snmp_success = False, walk_state = store_host gateway 0 st1\<rparr>"
    have a: "automatic_snmp w st = router_walk w ?k"
      using b by (simp add: automatic_snmp_def g)
    have k1: "walk_ok w (queried_routers (printed st)) ?k"
      by (simp add: walk_ok_def store_host_def p1 MAX_HOPS_def)
    have k2: "walk_cmds (cmds st @ [route_command]) ?k"
      by (simp add: walk_cmds_def store_host_def c1)
    have r: "walk_ok w (queried_routers (printed st)) (router_walk w ?k)
             \<and> walk_cmds (cmds st @ [route_command]) (router_walk w ?k)"
      by (rule router_walk_ok [OF k1 k2])
    moreover have "routers_queried (router_walk w ?k) = length (routers_to_query (router_walk w ?k))"
      by (rule walk_ok_all_queried) (use r in blast)
    ultimately show ?thesis unfolding a by blast
  qed
qed

lemma cmds_arp_dedup_loop [simp]: "cmds (arp_dedup_loop ls sb st) = cmds st"
  by (induction ls sb st rule: arp_dedup_loop.induct)
     (auto simp: store_host_def split: option.splits prod.splits)

lemma cmds_conn_loop [simp]: "cmds (conn_loop ls st) = cmds st"
  by (induction ls st rule: conn_loop.induct) (auto simp: store_host_def split: option.splits)

lemma cmds_automatic_arp: "cmds (automatic_arp w st) = cmds st @ [arp_command]"
  by (simp add: automatic_arp_def run_popen_def split: option.splits)

lemma cmds_efficient_connections: "cmds (efficient_connections w st) = cmds st @ [conn_command]"
  by (simp add: efficient_connections_def run_popen_def split: option.splits)

lemma discover_automatic_cmds:
  "cmds (snd (discover_automatic w st)) =
     cmds (walk_state (automatic_snmp w st)) @ [arp_command, conn_command]"
  by (simp add: discover_automatic_def Let_def cmds_automatic_arp cmds_efficient_connections)

lemma discover_automatic_printed:
  "printed (snd (discover_automatic w st)) = printed (walk_state (automatic_snmp w st))"
  by (simp add: discover_automatic_def Let_def)

lemma fgets_all_Nil [simp]: "fgets_all n [] = []"
  by (subst fgets_all.simps) simp

lemma quiet_automatic:
  assumes q: "\<forall>n c. popen w n c = None \<or> popen w n c = Some []"
  shows "discover_automatic w st =
           (0, st\<lparr>hosts := [], cmds := cmds st @ [route_command, arp_command, conn_command]\<rparr>)"
proof -
  have g: "get_default_gateway w (st\<lparr>hosts := []\<rparr>) =
             ((0, None), st\<lparr>hosts := [], cmds := cmds st @ [route_command]\<rparr>)"
    using q [rule_format, of "length (cmds st)" route_command]
    by (auto simp: get_default_gateway_def run_popen_def)
  have a: "walk_state (automatic_snmp w st) = st\<lparr>hosts := [], cmds := cmds st @ [route_command]\<rparr>"
    by (simp add: automatic_snmp_def g)
  have b: "automatic_arp w (st\<lparr>hosts := [], cmds := cmds st @ [route_command]\<rparr>) =
             st\<lparr>hosts := [], cmds := cmds st @ [route_command, arp_command]\<rparr>"
    using q [rule_format, of "Suc (length (cmds st))" arp_command]
    by (auto simp: automatic_arp_def run_popen_def)
  have c: "efficient_connections w (st\<lparr>hosts := [], cmds := cmds st @ [route_command, arp_command]\<rparr>) =
             st\<lparr>hosts := [], cmds := cmds st @ [route_command, arp_command, conn_command]\<rparr>"
    using q [rule_format, of "Suc (Suc (length (cmds st)))" conn_command]
    by (auto simp: efficient_connections_def run_popen_def)
  show ?thesis
    by (simp add: discover_automatic_def Let_def a b c discovered_count_def)
qed

lemma two_router_nexthops:
  "discover_nexthop_routers two_router_world ''10.0.0.1'' ''abc'' 30 initial_state =
     ([''10.0.0.2''],
      initial_state\<lparr>cmds := [snmpwalk_command ''abc'' ''10.0.0.1'' ''1.3.6.1.2.1.4.21.1.7'']\<rparr>)"
  by code_simp

lemma div_block: "0 \<le> r \<Longrightarrow> r < m \<Longrightarrow> (a * m + r) div m = (a::int)"
  by (simp add: div_pos_pos_trivial)

lemma octet_divs:
  fixes a b c d :: int
  assumes "0 \<le> a" "a \<le> 255" "0 \<le> b" "b \<le> 255" "0 \<le> c" "c \<le> 255" "0 \<le> d" "d \<le> 255"
  shows "(((a * 256 + b) * 256 + c) * 256 + d) div 16777216 = a"
    and "(((a * 256 + b) * 256 + c) * 256 + d) div 65536 = a * 256 + b"
    and "(((a * 256 + b) * 256 + c) * 256 + d) div 1048576 = a * 16 + b div 16"
proof -
  have r1: "0 \<le> b * 65536 + (c * 256 + d)" "b * 65536 + (c * 256 + d) < 16777216"
    using assms by simp_all
  have "((a * 256 + b) * 256 + c) * 256 + d = a * 16777216 + (b * 65536 + (c * 256 + d))"
    by (simp add: algebra_simps)
  then show "(((a * 256 + b) * 256 + c) * 256 + d) div 16777216 = a"
    using div_block [OF r1, of a] by simp
  have r2: "0 \<le> c * 256 + d" "c * 256 + d < 65536" using assms by simp_all
  have "((a * 256 + b) * 256 + c) * 256 + d = (a * 256 + b) * 65536 + (c * 256 + d)"
    by (simp add: algebra_simps)
  then show "(((a * 256 + b) * 256 + c) * 256 + d) div 65536 = a * 256 + b"
    using div_block [OF r2, of "a * 256 + b"] by simp
  define q where "q = b div 16"
  define s where "s = b mod 16"
  have b: "b = q * 16 + s" and s: "0 \<le> s" "s < 16" by (simp_all add: q_def s_def)
  have r3: "0 \<le> s * 65536 + (c * 256 + d)" "s * 65536 + (c * 256 + d) < 1048576"
    using assms s by simp_all
  have "((a * 256 + b) * 256 + c) * 256 + d = (a * 16 + q) * 1048576 + (s * 65536 + (c * 256 + d))"
    unfolding b by (simp add: algebra_simps)
  then show "(((a * 256 + b) * 256 + c) * 256 + d) div 1048576 = a * 16 + b div 16"
    using div_block [OF r3, of "a * 16 + q"] by (simp add: q_def)
qed

lemma private_tests:
  fixes a b :: int
  assumes "0 \<le> a" "a \<le> 255" "0 \<le> b" "b \<le> 255"
  shows "(a * 16 + b div 16 = 2753) = (a = 172 \<and> 16 \<le> b \<and> b \<le> 31)"
    and "(a * 256 + b = 49320) = (a = 192 \<and> b = 168)"
proof -
  define q where "q = b div 16"
  have q: "q * 16 \<le> b" "b < q * 16 + 16" by (simp_all add: q_def)
  then have q0: "0 \<le> q" "q \<le> 15" using assms by linarith+
  have "(a * 16 + q = 2753) = (a = 172 \<and> 16 \<le> b \<and> b \<le> 31)"
  proof
    assume e: "a * 16 + q = 2753"
    have "a = 172" using e q0 by linarith
    then have "q = 1" using e by simp
    then show "a = 172 \<and> 16 \<le> b \<and> b \<le> 31" using q \<open>a = 172\<close> by simp
  next
    assume e: "a = 172 \<and> 16 \<le> b \<and> b \<le> 31"
    then have "q = 1" using q by linarith
    then show "a * 16 + q = 2753" using e by simp
  qed
  then show "(a * 16 + b div 16 = 2753) = (a = 172 \<and> 16 \<le> b \<and> b \<le> 31)"
    by (simp add: q_def)
  show "(a * 256 + b = 49320) = (a = 192 \<and> b = 168)"
  proof
    assume e: "a * 256 + b = 49320"
    have "a = 192" using e assms by linarith
    then show "a = 192 \<and> b = 168" using e by simp
  qed simp
qed

lemma is_private_range:
  assumes "0 \<le> a" "a \<le> 255" "0 \<le> b" "b \<le> 255" "0 \<le> c" "c \<le> 255" "0 \<le> d" "d \<le> 255"
  shows "is_private (a, b, c, d) = private_range (addr_value (a, b, c, d))"
proof -
  have k: "\<And>v. in_cidr v (10, 0, 0, 0) 8 = (v div 16777216 = 10)"
    "\<And>v. in_cidr v (172, 16, 0, 0) 12 = (v div 1048576 = 2753)"
    "\<And>v. in_cidr v (192, 168, 0, 0) 16 = (v div 65536 = 49320)"
    by (simp_all add: in_cidr_def addr_value_def)
  have v: "addr_value (a, b, c, d) = ((a * 256 + b) * 256 + c) * 256 + d"
    by (simp only: addr_value_def prod.case)
  have "private_range (addr_value (a, b, c, d)) =
          (a = 10 \<or> a * 16 + b div 16 = 2753 \<or> a * 256 + b = 49320)"
    by (simp only: private_range_def k v octet_divs [OF assms])
  also have "\<dots> = (a = 10 \<or> (a = 172 \<and> 16 \<le> b \<and> b \<le> 31) \<or> (a = 192 \<and> b = 168))"
    by (simp only: private_tests [OF assms(1-4)])
  finally show ?thesis by (simp add: is_private_def)
qed

lemma quad_8888: "dotted_quad (8, 8, 8, 8) = ''8.8.8.8''"
  by code_simp

lemma quad_10002: "dotted_quad (10, 0, 0, 2) = ''10.0.0.2''"
  by code_simp

lemma public_8888: "\<not> is_private (parse_ip w ''8.8.8.8'')"
proof -
  have "parse_ip w (snprintf_quad MAX_IP_LEN 8 8 8 8) = (8, 8, 8, 8)"
    by (rule parse_ip_quad) simp_all
  then have "parse_ip w ''8.8.8.8'' = (8, 8, 8, 8)"
    using quad_8888 by (simp add: dotted_quad_def)
  then show ?thesis by (simp add: is_private_def)
qed

lemma nexthop_ok_range:
  assumes "0 \<le> a" "a \<le> 255" "0 \<le> b" "b \<le> 255" "0 \<le> c" "c \<le> 255" "0 \<le> d" "d \<le> 255"
  shows "nexthop_ok w (dotted_quad (a, b, c, d)) \<Longrightarrow> private_range (addr_value (a, b, c, d))"
proof -
  have "parse_ip w (snprintf_quad MAX_IP_LEN a b c d) = (a, b, c, d)"
    by (rule parse_ip_quad) (use assms in simp_all)
  then show "nexthop_ok w (dotted_quad (a, b, c, d)) \<Longrightarrow> private_range (addr_value (a, b, c, d))"
    using is_private_range [OF assms] by (simp add: nexthop_ok_def dotted_quad_def)
qed

lemma nexthops_filtered:
  "list_all (\<lambda>ip. is_private (parse_ip w ip) \<and> ip \<noteq> ''0.0.0.0'' \<and> ip \<noteq> r \<and> ip \<noteq> ''8.8.8.8'')
     (fst (discover_nexthop_routers w r c m st))"
  using discover_nexthop_routers_inv [of w r c m st] public_8888 [of w]
  by (auto simp: list_all_iff nexthop_ok_def)

lemma frontier_filtered:
  "list_all (\<lambda>ip. is_private (parse_ip w ip) \<and> ip \<noteq> ''0.0.0.0'' \<and> ip \<noteq> ''8.8.8.8'')
     (tl (routers_to_query (automatic_snmp w st)))"
proof -
  have "list_all (nexthop_ok w) (tl (routers_to_query (automatic_snmp w st)))"
    using automatic_snmp_ok [of w st] by (simp add: walk_ok_def)
  then show ?thesis using public_8888 [of w]
    by (auto simp: list_all_iff nexthop_ok_def)
qed

lemma nexthops_in_range:
  assumes "0 \<le> a" "a \<le> 255" "0 \<le> b" "b \<le> 255" "0 \<le> c" "c \<le> 255" "0 \<le> d" "d \<le> 255"
    and "dotted_quad (a, b, c, d) \<in> set (fst (discover_nexthop_routers w r cm m st))
         \<or> dotted_quad (a, b, c, d) \<in> set (tl (routers_to_query (automatic_snmp w st')))"
  shows "private_range (addr_value (a, b, c, d))"
proof -
  have 1: "list_all (nexthop_ok w) (tl (routers_to_query (automatic_snmp w st')))"
    using automatic_snmp_ok [of w st'] by (simp add: walk_ok_def)
  have 2: "list_all (nexthop_ok w) (fst (discover_nexthop_routers w r cm m st))"
    using discover_nexthop_routers_inv [of w r cm m st] by (simp add: list_all_iff)
  have "nexthop_ok w (dotted_quad (a, b, c, d))"
    using assms(9) 1 2 by (auto simp: list_all_iff)
  then show ?thesis by (rule nexthop_ok_range [OF assms(1-8)])
qed

lemma two_router_walk:
  "automatic_snmp two_router_world initial_state =
     \<lparr>routers_queried = 2, routers_to_query = [''10.0.0.1'', ''10.0.0.2''], snmp_success = True,
      walk_state =
        \<lparr>hosts = [\<lparr>ip_address = ''10.0.0.1'', response_time_ms = 0, is_reachable = 1\<rparr>,
                  \<lparr>ip_address = ''10.0.0.2'', response_time_ms = 0, is_reachable = 1\<rparr>],
         cmds = [route_command,
                 snmpwalk_command ''abc'' ''10.0.0.1'' ''1.3.6.1.2.1.4.20.1.1'',
                 snmpwalk_command ''abc'' ''10.0.0.1'' ''1.3.6.1.2.1.4.21.1.7'',
                 snmpwalk_command ''abc'' ''10.0.0.1'' ''1.3.6.1.2.1.4.22.1.3'',
                 snmpwalk_command ''abc'' ''10.0.0.2'' ''1.3.6.1.2.1.4.20.1.1'',
                 snmpwalk_command ''abc'' ''10.0.0.2'' ''1.3.6.1.2.1.4.21.1.7'',
                 snmpwalk_command ''abc'' ''10.0.0.2'' ''1.3.6.1.2.1.4.22.1.3''],
         printed = [QueryingRouter 1 ''10.0.0.1'', QueryingRouter 2 ''10.0.0.2'']\<rparr>\<rparr>"
  by code_simp

lemma walk_blocks:
  "\<exists>qs. cmds (snd (discover_automatic w st)) =
          cmds st @ [route_command] @ concat qs @ [arp_command, conn_command]
        \<and> list_all2 (\<lambda>r q. list_all (addressed_to r) q) (routers_to_query (automatic_snmp w st)) qs"
proof -
  have a: "walk_cmds (cmds st @ [route_command]) (automatic_snmp w st)"
    and e: "routers_queried (automatic_snmp w st) = length (routers_to_query (automatic_snmp w st))"
    using automatic_snmp_ok [of w st] by simp_all
  from a obtain qs where q: "cmds (walk_state (automatic_snmp w st)) = (cmds st @ [route_command]) @ concat qs"
      "list_all2 (\<lambda>r q. list_all (addressed_to r) q)
         (take (routers_queried (automatic_snmp w st)) (routers_to_query (automatic_snmp w st))) qs"
    unfolding walk_cmds_def by blast
  show ?thesis
    by (rule exI [of _ qs]) (use q e in \<open>simp add: discover_automatic_cmds\<close>)
qed

lemma walk_queried:
  "queried_routers (printed (snd (discover_automatic w st))) =
     queried_routers (printed st) @ routers_to_query (automatic_snmp w st)"
  using automatic_snmp_ok [of w st] by (simp add: walk_ok_def discover_automatic_printed)

section \<open>Routers are queried once\<close>

text \<open>
  C3.  In one run of \<^verbatim>\<open>discover_automatic\<close> the routers queried, in the order of the
  walk, are the entries of \<^verbatim>\<open>routers_to_query\<close> at the end of the walk: they are
  pairwise distinct, there are at most \<^verbatim>\<open>MAX_HOPS\<close> = 30 of them, and
  \<^verbatim>\<open>routers_queried\<close> is their number.  They are what the run announces, one
  \<open>QueryingRouter\<close> line per visit, and the commands of the run are the gateway lookup,
  then one block of \<^verbatim>\<open>snmpwalk\<close> commands per router queried, in that order, each block
  addressed to its router only, then the two passive collectors.  Where two routers name
  each other as next hop, each is queried once.
\<close>

theorem router_walk_visits_once:
  "distinct (routers_to_query (automatic_snmp w st))
   \<and> length (routers_to_query (automatic_snmp w st)) \<le> MAX_HOPS \<and> MAX_HOPS = 30
   \<and> routers_queried (automatic_snmp w st) = length (routers_to_query (automatic_snmp w st))
   \<and> queried_routers (printed (snd (discover_automatic w st))) =
       queried_routers (printed st) @ routers_to_query (automatic_snmp w st)
   \<and> (\<exists>qs. cmds (snd (discover_automatic w st)) =
              cmds st @ [route_command] @ concat qs @ [arp_command, conn_command]
         \<and> list_all2 (\<lambda>r q. list_all (addressed_to r) q)
              (routers_to_query (automatic_snmp w st)) qs)
   \<and> routers_to_query (automatic_snmp two_router_world initial_state) = [''10.0.0.1'', ''10.0.0.2'']
   \<and> cmds (snd (discover_automatic two_router_world initial_state)) =
        [route_command,
         snmpwalk_command ''abc'' ''10.0.0.1'' ''1.3.6.1.2.1.4.20.1.1'',
         snmpwalk_command ''abc'' ''10.0.0.1'' ''1.3.6.1.2.1.4.21.1.7'',
         snmpwalk_command ''abc'' ''10.0.0.1'' ''1.3.6.1.2.1.4.22.1.3'',
         snmpwalk_command ''abc'' ''10.0.0.2'' ''1.3.6.1.2.1.4.20.1.1'',
         snmpwalk_command ''abc'' ''10.0.0.2'' ''1.3.6.1.2.1.4.21.1.7'',
         snmpwalk_command ''abc'' ''10.0.0.2'' ''1.3.6.1.2.1.4.22.1.3'',
         arp_command, conn_command]"
proof -
  have ok: "walk_ok w (queried_routers (printed st)) (automatic_snmp w st)"
    and e: "routers_queried (automatic_snmp w st) = length (routers_to_query (automatic_snmp w st))"
    using automatic_snmp_ok [of w st] by simp_all
  have 1: "distinct (routers_to_query (automatic_snmp w st))"
    and 2: "length (routers_to_query (automatic_snmp w st)) \<le> MAX_HOPS"
    using ok by (simp_all add: walk_ok_def)
  have 3: "MAX_HOPS = 30" by (simp add: MAX_HOPS_def)
  have 4: "routers_to_query (automatic_snmp two_router_world initial_state) =
             [''10.0.0.1'', ''10.0.0.2'']"
    by (simp add: two_router_walk)
  have 5: "cmds (snd (discover_automatic two_router_world initial_state)) =
        [route_command,
         snmpwalk_command ''abc'' ''10.0.0.1'' ''1.3.6.1.2.1.4.20.1.1'',
         snmpwalk_command ''abc'' ''10.0.0.1'' ''1.3.6.1.2.1.4.21.1.7'',
         snmpwalk_command ''abc'' ''10.0.0.1'' ''1.3.6.1.2.1.4.22.1.3'',
         snmpwalk_command ''abc'' ''10.0.0.2'' ''1.3.6.1.2.1.4.20.1.1'',
         snmpwalk_command ''abc'' ''10.0.0.2'' ''1.3.6.1.2.1.4.21.1.7'',
         snmpwalk_command ''abc'' ''10.0.0.2'' ''1.3.6.1.2.1.4.22.1.3'',
         arp_command, conn_command]"
    by (simp only: discover_automatic_cmds two_router_walk walk.simps state.simps append.simps)
  show ?thesis
    using 1 2 3 e walk_queried [of w st] walk_blocks [of w st] 4 5 by blast
qed

section \<open>Next hops are private addresses\<close>

text \<open>
  C4.  Every address in the list returned by \<^verbatim>\<open>discover_nexthop_routers\<close> passed the
  private-range test of the code, is not 0.0.0.0, is not the address of the router queried
  and is not 8.8.8.8; the same holds of every entry of the walker's
  \<^verbatim>\<open>routers_to_query\<close> after the first (the gateway, which is where the walk starts and
  which no router query supplied), except that an entry may be the address of a router
  queried.  On a dotted quad with octets in 0..255 the test of the code is membership in
  10/8, 172.16/12 or 192.168/16, so every such address in the list or among those entries
  lies in one of these ranges.
\<close>

theorem nexthop_list_private:
  "list_all (\<lambda>ip. is_private (parse_ip w ip) \<and> ip \<noteq> ''0.0.0.0'' \<and> ip \<noteq> router_ip
                \<and> ip \<noteq> ''8.8.8.8'')
     (fst (discover_nexthop_routers w router_ip community max_nexthops st))
   \<and> list_all (\<lambda>ip. is_private (parse_ip w ip) \<and> ip \<noteq> ''0.0.0.0'' \<and> ip \<noteq> ''8.8.8.8'')
       (tl (routers_to_query (automatic_snmp w st')))
   \<and> (0 \<le> a \<and> a \<le> 255 \<and> 0 \<le> b \<and> b \<le> 255 \<and> 0 \<le> c \<and> c \<le> 255 \<and> 0 \<le> d \<and> d \<le> 255 \<longrightarrow>
        is_private (parse_ip w (dotted_quad (a, b, c, d))) = private_range (addr_value (a, b, c, d)))
   \<and> (0 \<le> a \<and> a \<le> 255 \<and> 0 \<le> b \<and> b \<le> 255 \<and> 0 \<le> c \<and> c \<le> 255 \<and> 0 \<le> d \<and> d \<le> 255
        \<and> (dotted_quad (a, b, c, d) \<in>
              set (fst (discover_nexthop_routers w router_ip community max_nexthops st))
            \<or> dotted_quad (a, b, c, d) \<in> set (tl (routers_to_query (automatic_snmp w st')))) \<longrightarrow>
        private_range (addr_value (a, b, c, d)))"
proof -
  have 3: "is_private (parse_ip w (dotted_quad (a, b, c, d))) = private_range (addr_value (a, b, c, d))"
    if r: "0 \<le> a \<and> a \<le> 255 \<and> 0 \<le> b \<and> b \<le> 255 \<and> 0 \<le> c \<and> c \<le> 255 \<and> 0 \<le> d \<and> d \<le> 255"
  proof -
    have "parse_ip w (snprintf_quad MAX_IP_LEN a b c d) = (a, b, c, d)"
      by (rule parse_ip_quad) (use r in simp_all)
    then show ?thesis using is_private_range [of a b c d] r by (simp add: dotted_quad_def)
  qed
  have 4: "private_range (addr_value (a, b, c, d))"
    if r: "0 \<le> a \<and> a \<le> 255 \<and> 0 \<le> b \<and> b \<le> 255 \<and> 0 \<le> c \<and> c \<le> 255 \<and> 0 \<le> d \<and> d \<le> 255
        \<and> (dotted_quad (a, b, c, d) \<in>
              set (fst (discover_nexthop_routers w router_ip community max_nexthops st))
            \<or> dotted_quad (a, b, c, d) \<in> set (tl (routers_to_query (automatic_snmp w st'))))"
    by (rule nexthops_in_range [where w = w and r = router_ip and cm = community
            and m = max_nexthops and st = st and st' = st']) (use r in simp_all)
  show ?thesis
    using nexthops_filtered [of w router_ip community max_nexthops st] frontier_filtered [of w st'] 3 4
    by blast
qed

theorem nexthop_list_private_witness:
  "fst (discover_nexthop_routers two_router_world ''10.0.0.1'' ''abc'' 30 initial_state) = [''10.0.0.2'']
   \<and> ''10.0.0.2'' \<noteq> ''8.8.8.8''
   \<and> is_private (parse_ip two_router_world ''10.0.0.2'')
   \<and> private_range (addr_value (10, 0, 0, 2))"
  using nexthop_list_private [of two_router_world "''10.0.0.1''" "''abc''" 30 initial_state
                                 initial_state 10 0 0 2]
  by (simp add: two_router_nexthops quad_10002)

section \<open>An empty result is not an error\<close>

text \<open>
  C6.  \<^verbatim>\<open>discover_automatic\<close> returns the number of entries of the registry, which is not
  negative, in every environment.  Whatever the gateway lookup and the router queries
  gave, the walk goes through every router of its list and the two passive collectors run
  after it.  Where no command starts or every command prints nothing, the run issues the
  gateway lookup and the two passive collectors and returns 0 with an empty registry.
\<close>

theorem discover_automatic_total:
  "fst (discover_automatic w st) = int (discovered_count (snd (discover_automatic w st)))
   \<and> 0 \<le> fst (discover_automatic w st)
   \<and> routers_queried (automatic_snmp w st) = length (routers_to_query (automatic_snmp w st))
   \<and> cmds (snd (discover_automatic w st)) =
       cmds (walk_state (automatic_snmp w st)) @ [arp_command, conn_command]
   \<and> ((\<forall>n c. popen w n c = None \<or> popen w n c = Some []) \<longrightarrow>
        discover_automatic w st =
          (0, st\<lparr>hosts := [], cmds := cmds st @ [route_command, arp_command, conn_command]\<rparr>))"
proof -
  have 1: "fst (discover_automatic w st) = int (discovered_count (snd (discover_automatic w st)))"
    by (simp add: discover_automatic_def Let_def)
  then have 2: "0 \<le> fst (discover_automatic w st)" by simp
  have 3: "routers_queried (automatic_snmp w st) = length (routers_to_query (automatic_snmp w st))"
    using automatic_snmp_ok [of w st] by simp
  show ?thesis
    using 1 2 3 discover_automatic_cmds [of w st] quiet_automatic [of w st] by blast
qed

theorem discover_automatic_total_witness:
  "discover_automatic silent_world initial_state =
     (0, \<lparr>hosts = [], cmds = [route_command, arp_command, conn_command], printed = []\<rparr>)"
  using discover_automatic_total [of silent_world initial_state]
  by (simp add: silent_world_def initial_state_def)

end
